theory Spec2Isabelle
  imports Main "HOL-Library.Sublist" "HOL-Library.Multiset" "HOL-Library.Word"
begin

section \<open>Strings\<close>

text \<open>
  A JavaScript string is a sequence of 16-bit code units, and every operation below works on
  code units. \<open>lit\<close> reads a string literal of the source, whose characters all lie below
  U+0100, as its code units; \<open>of_char c\<close> is the code unit of the character \<open>c\<close>.
\<close>

type_synonym code_unit = "16 word"

type_synonym ustring = "code_unit list"

definition lit :: "string \<Rightarrow> ustring" where
  "lit s = map of_char s"

text \<open>
  The class \<open>\s\<close> of a regular expression and the characters that
  \<open>String.prototype.trim\<close> removes are one set, the WhiteSpace and LineTerminator code
  points of ECMA-262: tab, line feed, vertical tab, form feed, carriage return, space,
  no-break space, U+1680, U+2000 to U+200A, U+2028, U+2029, U+202F, U+205F, U+3000 and
  U+FEFF.
\<close>

definition isSpace :: "code_unit \<Rightarrow> bool" where
  "isSpace c \<longleftrightarrow>
     c \<in> set [0x0009, 0x000A, 0x000B, 0x000C, 0x000D, 0x0020, 0x00A0, 0x1680,
              0x2000, 0x2001, 0x2002, 0x2003, 0x2004, 0x2005, 0x2006, 0x2007, 0x2008, 0x2009,
              0x200A, 0x2028, 0x2029, 0x202F, 0x205F, 0x3000, 0xFEFF]"

text \<open>
  The class \<open>\w\<close> of a regular expression without the flags \<open>u\<close> and \<open>i\<close> is
  \<open>[A-Za-z0-9_]\<close>, whatever the input.
\<close>

definition isUpper :: "code_unit \<Rightarrow> bool" where
  "isUpper c \<longleftrightarrow> of_char CHR ''A'' \<le> c \<and> c \<le> of_char CHR ''Z''"

definition isLower :: "code_unit \<Rightarrow> bool" where
  "isLower c \<longleftrightarrow> of_char CHR ''a'' \<le> c \<and> c \<le> of_char CHR ''z''"

definition isDigit :: "code_unit \<Rightarrow> bool" where
  "isDigit c \<longleftrightarrow> of_char CHR ''0'' \<le> c \<and> c \<le> of_char CHR ''9''"

definition isWordChar :: "code_unit \<Rightarrow> bool" where
  "isWordChar c \<longleftrightarrow> isUpper c \<or> isLower c \<or> isDigit c \<or> c = of_char CHR ''_''"

definition isHyphen :: "code_unit \<Rightarrow> bool" where
  "isHyphen c \<longleftrightarrow> c = of_char CHR ''-''"

text \<open>\<open>String.prototype.trim\<close>: whitespace is removed at both ends.\<close>

definition trimEnd :: "(code_unit \<Rightarrow> bool) \<Rightarrow> ustring \<Rightarrow> ustring" where
  "trimEnd P s = rev (dropWhile P (rev s))"

definition trim :: "ustring \<Rightarrow> ustring" where
  "trim s = trimEnd isSpace (dropWhile isSpace s)"

text \<open>\<open>String.prototype.includes\<close>: the argument occurs somewhere as a contiguous run.\<close>

fun includesStr :: "ustring \<Rightarrow> ustring \<Rightarrow> bool" where
  "includesStr [] sub = (sub = [])"
| "includesStr (c # cs) sub = (prefix sub (c # cs) \<or> includesStr cs sub)"

text \<open>
  Three built-ins are parameters of the model, because what they return is fixed by tables
  and rules of the runtime and not by the program: \<open>toLowerCase s\<close> is
  \<open>s.toLowerCase()\<close>, which follows the Unicode case mappings (it folds letters outside
  ASCII and may change the length of a string); \<open>parseDate s\<close> is the time value of
  \<open>new Date(s)\<close>, in milliseconds, or \<open>None\<close> when it is \<open>NaN\<close>; \<open>toISOString\<close>
  renders a time value.
\<close>

record js_builtins =
  toLowerCase :: "ustring \<Rightarrow> ustring"
  parseDate :: "ustring \<Rightarrow> int option"
  toISOString :: "int \<Rightarrow> ustring"

section \<open>Data model (src/types/index.ts)\<close>

text \<open>
  The fields of \<open>Article\<close> that the cache and the service read. \<open>pubDate\<close> is kept as the
  instant \<open>new Date(pubDate).getTime()\<close> in milliseconds, the only way the code reads it;
  \<open>parseRSSItem\<close> stores the output of \<open>toISOString()\<close> only, so the instant always exists.
  \<open>image\<close> is optional. The fields \<open>id\<close> and \<open>image\<close> carry a prime because HOL has
  constants of these names. The fields that the code lowercases, searches, or builds keys
  and slugs from (\<open>title\<close>, \<open>description\<close>, \<open>content\<close>, \<open>link\<close>, \<open>slug\<close>,
  \<open>tags\<close>) are sequences of code units; the others are only copied and compared as wholes.
\<close>

record article =
  id' :: string
  title :: ustring
  description :: ustring
  content :: ustring
  link :: ustring
  pubDate :: int
  source :: string
  category :: string
  slug :: ustring
  image' :: "string option"
  tags :: "ustring list"

record news_source =
  name :: string
  url :: string
  source_category :: string
  color :: string

text \<open>
  What a cache file holds once parsed: \<open>CacheData\<close> for \<open>articles.json\<close>, and \<open>FeedData\<close>
  with the stamped \<open>version\<close> for \<open>feeds.json\<close> (only there is \<open>feeds\<close> present).
\<close>

record snapshot =
  feeds :: "news_source list option"
  articles :: "article list"
  lastUpdated :: int
  version :: string

datatype file_content = Json snapshot | Garbage

record cache_file =
  mtime :: int
  content' :: file_content

datatype error = IOError | NetworkError

section \<open>The world the code runs in\<close>

text \<open>
  The directory \<open>.cache/news\<close> is a map from file names to files. \<open>clock\<close> is what
  \<open>Date.now()\<close> returns; one call of an exported function reads one instant, and time passes
  between calls by an update of \<open>clock\<close>. \<open>unwritable\<close> holds the file names whose
  \<open>mkdir\<close>/\<open>writeFile\<close> is rejected. \<open>network\<close> gives, for a feed URL, what
  \<open>parser.parseURL\<close> followed by \<open>parseRSSItem\<close> on each item yields, or the error it throws.
  \<open>newsSources\<close> is the static source list of the configuration. \<open>builtins\<close> holds the
  built-ins of the runtime the code runs on. \<open>isRefreshing\<close> is the
  private flag of the \<open>NewsService\<close> singleton. The three counters record effects: file-system
  reads (\<open>stat\<close>, \<open>readFile\<close>), completed file writes, and calls of
  \<open>fetchArticlesFromSources\<close>.
\<close>

record world =
  files :: "string \<rightharpoonup> cache_file"
  clock :: int
  unwritable :: "string set"
  network :: "string \<Rightarrow> error + article list"
  newsSources :: "news_source list"
  builtins :: js_builtins
  isRefreshing :: bool
  reads :: nat
  writes :: nat
  fetches :: nat

section \<open>File cache (src/cache/fileCache.ts)\<close>

definition CACHE_VERSION :: string where
  "CACHE_VERSION = ''1.0.0''"

definition CACHE_EXPIRY_MS :: int where
  "CACHE_EXPIRY_MS = 30 * 60 * 1000"

text \<open>\<open>fs.stat\<close> and \<open>fs.readFile\<close> reject when the file is missing; each counts as a read.\<close>

definition fs_stat :: "string \<Rightarrow> world \<Rightarrow> (error + cache_file) \<times> world" where
  "fs_stat f w =
     ((case files w f of None \<Rightarrow> Inl IOError | Some fl \<Rightarrow> Inr fl), w\<lparr>reads := reads w + 1\<rparr>)"

definition fs_readFile :: "string \<Rightarrow> world \<Rightarrow> (error + file_content) \<times> world" where
  "fs_readFile f w =
     ((case files w f of None \<Rightarrow> Inl IOError | Some fl \<Rightarrow> Inr (content' fl)),
      w\<lparr>reads := reads w + 1\<rparr>)"

text \<open>\<open>isCacheValid\<close>: the \<open>catch\<close> turns a failed \<open>stat\<close> into \<open>false\<close>.\<close>

definition isCacheValid :: "string \<Rightarrow> world \<Rightarrow> bool \<times> world" where
  "isCacheValid f w =
     (case fs_stat f w of
        (Inl e, w1) \<Rightarrow> (False, w1)
      | (Inr stats, w1) \<Rightarrow>
          (let now = clock w1; fileAge = now - mtime stats
           in (fileAge < CACHE_EXPIRY_MS, w1)))"

text \<open>
  \<open>readCacheFile\<close>: \<open>null\<close> (here \<open>None\<close>) when the file is not valid, when reading or
  \<open>JSON.parse\<close> throws, and when the version differs.
\<close>

definition readCacheFile :: "string \<Rightarrow> world \<Rightarrow> snapshot option \<times> world" where
  "readCacheFile f w =
     (case isCacheValid f w of
        (valid, w1) \<Rightarrow>
          if \<not> valid then (None, w1)
          else
            (case fs_readFile f w1 of
               (Inl e, w2) \<Rightarrow> (None, w2)
             | (Inr Garbage, w2) \<Rightarrow> (None, w2)
             | (Inr (Json d), w2) \<Rightarrow>
                 (if version d \<noteq> CACHE_VERSION then (None, w2) else (Some d, w2))))"

text \<open>
  \<open>writeCacheFile\<close>: stamps the version and the current time over the data and replaces the
  file; a rejected \<open>mkdir\<close> or \<open>writeFile\<close> is rethrown and leaves the file as it was.
\<close>

definition writeCacheFile :: "string \<Rightarrow> snapshot \<Rightarrow> world \<Rightarrow> (error + unit) \<times> world" where
  "writeCacheFile f d w =
     (if f \<in> unwritable w then (Inl IOError, w)
      else
        (let cacheData = d\<lparr>version := CACHE_VERSION, lastUpdated := clock w\<rparr>
         in (Inr (),
             w\<lparr>files := (files w)(f \<mapsto> \<lparr>mtime = clock w, content' = Json cacheData\<rparr>),
               writes := writes w + 1\<rparr>)))"

definition getCachedArticles :: "world \<Rightarrow> article list \<times> world" where
  "getCachedArticles w =
     (case readCacheFile ''articles.json'' w of
        (None, w1) \<Rightarrow> ([], w1)
      | (Some cacheData, w1) \<Rightarrow> (articles cacheData, w1))"

definition cacheArticles :: "article list \<Rightarrow> world \<Rightarrow> (error + unit) \<times> world" where
  "cacheArticles as w =
     writeCacheFile ''articles.json''
       \<lparr>feeds = None, articles = as, lastUpdated = clock w, version = CACHE_VERSION\<rparr> w"

text \<open>The comparator \<open>(a, b) => time(b) - time(a)\<close> of a stable sort: newest first.\<close>

definition sortByDate :: "article list \<Rightarrow> article list" where
  "sortByDate as = sort_key (\<lambda>a. - pubDate a) as"

definition addArticles :: "article list \<Rightarrow> world \<Rightarrow> (error + article list) \<times> world" where
  "addArticles newArticles w =
     (case getCachedArticles w of
        (existingArticles, w1) \<Rightarrow>
          (let existingIds = set (map id' existingArticles);
               uniqueNewArticles = filter (\<lambda>a. id' a \<notin> existingIds) newArticles
           in if length uniqueNewArticles = 0 then (Inr existingArticles, w1)
              else
                (let allArticles = sortByDate (uniqueNewArticles @ existingArticles);
                     trimmedArticles = take 1000 allArticles
                 in case cacheArticles trimmedArticles w1 of
                      (Inl e, w2) \<Rightarrow> (Inl e, w2)
                    | (Inr u, w2) \<Rightarrow> (Inr trimmedArticles, w2))))"

definition cacheFeedData :: "snapshot \<Rightarrow> world \<Rightarrow> (error + unit) \<times> world" where
  "cacheFeedData feedData w = writeCacheFile ''feeds.json'' feedData w"

record cache_stats =
  articlesCount :: nat
  stats_lastUpdated :: "int option"
  isExpired :: bool

text \<open>
  \<open>getCacheStats\<close>: reads the snapshot, checks validity again and stats the file for its
  size (the size itself is not modelled). \<open>cacheData?.lastUpdated || null\<close> gives \<open>null\<close>
  for a missing snapshot and for the falsy value 0.
\<close>

definition getCacheStats :: "world \<Rightarrow> cache_stats \<times> world" where
  "getCacheStats w =
     (case readCacheFile ''articles.json'' w of
        (cacheData, w1) \<Rightarrow>
          (case isCacheValid ''articles.json'' w1 of
             (valid, w2) \<Rightarrow>
               (case fs_stat ''articles.json'' w2 of
                  (sz, w3) \<Rightarrow>
                    (\<lparr>articlesCount = (case cacheData of None \<Rightarrow> 0 | Some d \<Rightarrow> length (articles d)),
                      stats_lastUpdated =
                        (case cacheData of
                           None \<Rightarrow> None
                         | Some d \<Rightarrow> if lastUpdated d = 0 then None else Some (lastUpdated d)),
                      isExpired = (\<not> valid)\<rparr>, w3))))"

definition searchCachedArticles :: "ustring \<Rightarrow> world \<Rightarrow> article list \<times> world" where
  "searchCachedArticles query w =
     (case getCachedArticles w of
        (allArticles, w1) \<Rightarrow>
          (let lower = toLowerCase (builtins w);
               lowercaseQuery = lower query
           in (filter (\<lambda>a. includesStr (lower (title a)) lowercaseQuery
                         \<or> includesStr (lower (description a)) lowercaseQuery
                         \<or> includesStr (lower (content a)) lowercaseQuery
                         \<or> list_ex (\<lambda>tag. includesStr (lower tag) lowercaseQuery) (tags a))
                 allArticles, w1)))"

section \<open>Feed aggregation (rssParser, in public/sw.js)\<close>

text \<open>
  \<open>removeDuplicates\<close>: the key is the title lowercased, with every character that is neither
  a word character nor whitespace removed, then trimmed, followed by \<open>-\<close> and the link. The
  loop keeps the set \<open>seen\<close> and appends to \<open>uniqueArticles\<close>. The first argument \<open>lower\<close>
  is the \<open>toLowerCase\<close> of the runtime.
\<close>

definition normalizedTitle :: "(ustring \<Rightarrow> ustring) \<Rightarrow> ustring \<Rightarrow> ustring" where
  "normalizedTitle lower t = trim (filter (\<lambda>c. isWordChar c \<or> isSpace c) (lower t))"

definition dedupKey :: "(ustring \<Rightarrow> ustring) \<Rightarrow> article \<Rightarrow> ustring" where
  "dedupKey lower a = normalizedTitle lower (title a) @ lit ''-'' @ link a"

fun removeDuplicatesLoop ::
  "(ustring \<Rightarrow> ustring) \<Rightarrow> ustring set \<Rightarrow> article list \<Rightarrow> article list \<Rightarrow> article list" where
  "removeDuplicatesLoop lower seen uniqueArticles [] = uniqueArticles"
| "removeDuplicatesLoop lower seen uniqueArticles (a # as) =
     (let key = dedupKey lower a
      in if key \<notin> seen
         then removeDuplicatesLoop lower (insert key seen) (uniqueArticles @ [a]) as
         else removeDuplicatesLoop lower seen uniqueArticles as)"

definition removeDuplicates :: "(ustring \<Rightarrow> ustring) \<Rightarrow> article list \<Rightarrow> article list" where
  "removeDuplicates lower as = removeDuplicatesLoop lower {} [] as"

text \<open>
  \<open>fetchAndParseRSS\<close>: any error becomes the empty list; at most 20 items of a feed are taken
  and those without a title or a link are filtered out.
\<close>

definition fetchAndParseRSS :: "news_source \<Rightarrow> world \<Rightarrow> article list" where
  "fetchAndParseRSS src w =
     (case network w (url src) of
        Inl e \<Rightarrow> []
      | Inr items \<Rightarrow>
          if length items = 0 then []
          else filter (\<lambda>a. title a \<noteq> [] \<and> link a \<noteq> []) (take 20 items))"

definition fetchArticlesFromSources :: "news_source list \<Rightarrow> world \<Rightarrow> article list \<times> world" where
  "fetchArticlesFromSources sources w =
     (let results = map (\<lambda>src. fetchAndParseRSS src w) sources;
          allArticles = concat results;
          uniqueArticles = removeDuplicates (toLowerCase (builtins w)) allArticles;
          sortedArticles = sortByDate uniqueArticles
      in (sortedArticles, w\<lparr>fetches := fetches w + 1\<rparr>))"

section \<open>News service (NewsService, in src/cache/fileCache.ts)\<close>

definition searchArticles :: "ustring \<Rightarrow> world \<Rightarrow> article list \<times> world" where
  "searchArticles query w =
     (if query = [] \<or> length (trim query) = 0 then ([], w)
      else searchCachedArticles (trim query) w)"

text \<open>
  The body of the \<open>try\<close> block of \<open>refreshArticles\<close>, entered with the flag already set. An
  \<open>Inl\<close> is an exception that leaves the block.
\<close>

definition refreshBody :: "bool \<Rightarrow> world \<Rightarrow> (error + article list) \<times> world" where
  "refreshBody force w =
     (case (if \<not> force
            then (case getCacheStats w of
                    (stats, w1) \<Rightarrow> (\<not> isExpired stats \<and> articlesCount stats > 0, w1))
            else (False, w)) of
        (stillValid, w1) \<Rightarrow>
          if stillValid
          then (case getCachedArticles w1 of (cached, w2) \<Rightarrow> (Inr cached, w2))
          else
            (case fetchArticlesFromSources (newsSources w1) w1 of
               (freshArticles, w2) \<Rightarrow>
                 if length freshArticles = 0
                 then (case getCachedArticles w2 of (cached, w3) \<Rightarrow> (Inr cached, w3))
                 else
                   (case addArticles freshArticles w2 of
                      (Inl e, w3) \<Rightarrow> (Inl e, w3)
                    | (Inr allArticles, w3) \<Rightarrow>
                        (let feedData = \<lparr>feeds = Some (newsSources w3), articles = allArticles,
                                          lastUpdated = clock w3, version = []\<rparr>
                         in case cacheFeedData feedData w3 of
                              (Inl e, w4) \<Rightarrow> (Inl e, w4)
                            | (Inr u, w4) \<Rightarrow> (Inr allArticles, w4)))))"

text \<open>
  \<open>refreshArticles\<close>: the guard \<open>this.isRefreshing && !force\<close> returns before the
  \<open>try\<close>; otherwise the flag is set, the body runs, the \<open>catch\<close> answers an exception
  with the cached articles, and the \<open>finally\<close> clears the flag. The result is a sum so that
  an error reaching the caller would show.
\<close>

definition refreshGuard :: "bool \<Rightarrow> bool \<Rightarrow> bool" where
  "refreshGuard refreshing force \<longleftrightarrow> refreshing \<and> \<not> force"

definition refreshArticles :: "bool \<Rightarrow> world \<Rightarrow> (error + article list) \<times> world" where
  "refreshArticles force w =
     (if refreshGuard (isRefreshing w) force
      then (case getCachedArticles w of (cached, w1) \<Rightarrow> (Inr cached, w1))
      else
        (case refreshBody force (w\<lparr>isRefreshing := True\<rparr>) of
           (Inr allArticles, w1) \<Rightarrow> (Inr allArticles, w1\<lparr>isRefreshing := False\<rparr>)
         | (Inl e, w1) \<Rightarrow>
             (case getCachedArticles w1 of
                (cachedArticles, w2) \<Rightarrow> (Inr cachedArticles, w2\<lparr>isRefreshing := False\<rparr>))))"

text \<open>
  \<open>getArticles\<close>: an empty cache triggers an unforced refresh; the \<open>catch\<close> answers an
  error with the empty list.
\<close>

definition getArticles :: "world \<Rightarrow> article list \<times> world" where
  "getArticles w =
     (case getCachedArticles w of
        (as, w1) \<Rightarrow>
          if length as = 0
          then (case refreshArticles False w1 of
                  (Inl e, w2) \<Rightarrow> ([], w2)
                | (Inr fresh, w2) \<Rightarrow> (fresh, w2))
          else (as, w1))"

definition getLatestArticles :: "nat \<Rightarrow> world \<Rightarrow> article list \<times> world" where
  "getLatestArticles limit w =
     (case getArticles w of (as, w1) \<Rightarrow> (take limit (sortByDate as), w1))"

text \<open>The truthiness test \<open>article.image\<close>: defined and not the empty string.\<close>

definition hasImage :: "article \<Rightarrow> bool" where
  "hasImage a = (case image' a of None \<Rightarrow> False | Some u \<Rightarrow> u \<noteq> [])"

definition getFeaturedArticles :: "world \<Rightarrow> article list \<times> world" where
  "getFeaturedArticles w =
     (case getLatestArticles 20 w of
        (as, w1) \<Rightarrow>
          (let articlesWithImages = filter hasImage as;
               articlesWithoutImages = filter (\<lambda>a. \<not> hasImage a) as
           in if length articlesWithImages = 0 then (take 15 articlesWithoutImages, w1)
              else
                (let featuredWithImages = take 12 articlesWithImages;
                     remainingSlots = 15 - int (length featuredWithImages);
                     additionalArticles = take (nat (max 0 remainingSlots)) articlesWithoutImages
                 in (featuredWithImages @ additionalArticles, w1))))"

section \<open>Slugs (src/utils/slugify.ts and generateArticleSlug of rssParser)\<close>

text \<open>
  \<open>s.replace(/[class]+/g, r)\<close>: every maximal run of characters of the class is replaced
  by \<open>r\<close>.
\<close>

fun replaceRuns :: "(code_unit \<Rightarrow> bool) \<Rightarrow> ustring \<Rightarrow> ustring \<Rightarrow> ustring" where
  "replaceRuns P r [] = []"
| "replaceRuns P r [c] = (if P c then r else [c])"
| "replaceRuns P r (c # d # cs) =
     (if P c then (if P d then replaceRuns P r (d # cs) else r @ replaceRuns P r (d # cs))
      else c # replaceRuns P r (d # cs))"

text \<open>
  \<open>s.replace(/cc+/g, r)\<close> for a class \<open>c\<close>: every maximal run of two or more is replaced by
  \<open>r\<close>; a single one stays.
\<close>

fun replaceLongRuns :: "(code_unit \<Rightarrow> bool) \<Rightarrow> ustring \<Rightarrow> ustring \<Rightarrow> ustring" where
  "replaceLongRuns P r [] = []"
| "replaceLongRuns P r [c] = [c]"
| "replaceLongRuns P r (c # d # cs) =
     (if P c \<and> P d
      then (case cs of
              [] \<Rightarrow> r
            | e # es \<Rightarrow> if P e then replaceLongRuns P r (d # cs) else r @ replaceLongRuns P r cs)
      else c # replaceLongRuns P r (d # cs))"

text \<open>\<open>slugify\<close>; the first argument \<open>lower\<close> is the \<open>toLowerCase\<close> of the runtime.\<close>

definition slugify :: "(ustring \<Rightarrow> ustring) \<Rightarrow> ustring \<Rightarrow> ustring" where
  "slugify lower text =
     (if text = [] then []
      else
        (let lowered = lower text;
             trimmed = trim lowered;
             hyphenated = replaceRuns (\<lambda>c. isSpace c \<or> c = of_char CHR ''_'') (lit ''-'') trimmed;
             cleaned = replaceRuns (\<lambda>c. \<not> (isWordChar c \<or> c = of_char CHR ''-'')) [] hyphenated;
             collapsed = replaceLongRuns isHyphen (lit ''-'') cleaned;
             stripped = trimEnd isHyphen (dropWhile isHyphen collapsed);
             capped = take 100 stripped
         in trimEnd isHyphen capped))"

text \<open>\<open>s.replace(pat, rep)\<close> with a string pattern: the first occurrence only.\<close>

fun replaceFirst :: "ustring \<Rightarrow> ustring \<Rightarrow> ustring \<Rightarrow> ustring" where
  "replaceFirst pat rep [] = (if pat = [] then rep else [])"
| "replaceFirst pat rep (c # cs) =
     (if prefix pat (c # cs) then rep @ drop (length pat) (c # cs)
      else c # replaceFirst pat rep cs)"

text \<open>
  \<open>generateArticleSlug\<close>: the \<open>catch\<close> replaces an invalid date by the current time \<open>now\<close>;
  \<open>split("T")[0]\<close> is the text before the first \<open>T\<close>.
\<close>

definition generateArticleSlug :: "js_builtins \<Rightarrow> int \<Rightarrow> ustring \<Rightarrow> ustring \<Rightarrow> ustring" where
  "generateArticleSlug B now title' pubDate' =
     (let normalizedDate =
            replaceFirst (lit '' GMT'') (lit '' +0000'')
              (replaceFirst (lit '' BST'') (lit '' +0100'') pubDate');
          date = (case parseDate B normalizedDate of Some t \<Rightarrow> t | None \<Rightarrow> now);
          dateStr = takeWhile (\<lambda>c. c \<noteq> of_char CHR ''T'') (toISOString B date);
          titleSlug = slugify (toLowerCase B) title'
      in dateStr @ lit ''-'' @ titleSlug)"

section \<open>Refreshes in flight together\<close>

text \<open>
  Calls of \<open>refreshArticles\<close> on the one \<open>NewsService\<close> instance interleave only at their
  \<open>await\<close>s: the code between two \<open>await\<close>s runs to completion. So a call is in one of four
  places: not yet started (with its \<open>force\<close> argument); past the guard's \<open>return\<close>, waiting
  for the cached articles; inside the \<open>try\<close> block, where fetch, merge and persist happen;
  or returned. \<open>advance\<close> runs one call up to its next place: the guard test and the
  assignment \<open>isRefreshing = true\<close> are one uninterrupted stretch, and leaving the \<open>try\<close>
  block runs the \<open>finally\<close>. A schedule names which call advances next.
\<close>

datatype call_state = Pending bool | ServingCache | InTry | Returned

record event_loop =
  flag :: bool
  calls :: "call_state list"

fun advance :: "bool \<Rightarrow> call_state \<Rightarrow> bool \<times> call_state" where
  "advance fl (Pending force) = (if refreshGuard fl force then (fl, ServingCache) else (True, InTry))"
| "advance fl ServingCache = (fl, Returned)"
| "advance fl InTry = (False, Returned)"
| "advance fl Returned = (fl, Returned)"

definition step :: "nat \<Rightarrow> event_loop \<Rightarrow> event_loop" where
  "step i l =
     (if i < length (calls l)
      then (case advance (flag l) (calls l ! i) of
              (fl, c) \<Rightarrow> \<lparr>flag = fl, calls = (calls l)[i := c]\<rparr>)
      else l)"

definition run :: "nat list \<Rightarrow> event_loop \<Rightarrow> event_loop" where
  "run schedule l = fold step schedule l"

definition inTry :: "event_loop \<Rightarrow> nat" where
  "inTry l = length (filter (\<lambda>c. c = InTry) (calls l))"

section \<open>The wording of the specification\<close>

text \<open>
  The definitions of this section follow the words of the specification and use none of the
  definitions above except the character classes \<open>isSpace\<close> and \<open>isWordChar\<close>.
\<close>

text \<open>
  The key as the specification words it, for comparison with \<open>dedupKey\<close>: the title
  lowercased with punctuation stripped, then \<open>-\<close> and the link. Punctuation is read as
  the code's class \<open>[^\w\s]\<close>, every character that is neither a word character nor
  whitespace. Unlike the code, the wording does not trim the normalized title.
\<close>

definition specNormalizedTitle :: "(ustring \<Rightarrow> ustring) \<Rightarrow> ustring \<Rightarrow> ustring" where
  "specNormalizedTitle lower t = filter (\<lambda>c. isWordChar c \<or> isSpace c) (lower t)"

definition specDedupKey :: "(ustring \<Rightarrow> ustring) \<Rightarrow> article \<Rightarrow> ustring" where
  "specDedupKey lower a = specNormalizedTitle lower (title a) @ [0x2D] @ link a"

text \<open>
  \<open>collapseRuns P s\<close>: every maximal run of characters of the class \<open>P\<close> in \<open>s\<close> becomes
  one hyphen (code unit 0x2D).
\<close>

function collapseRuns :: "(code_unit \<Rightarrow> bool) \<Rightarrow> ustring \<Rightarrow> ustring" where
  "collapseRuns P [] = []"
| "collapseRuns P (c # cs) =
     (if P c then 0x2D # collapseRuns P (dropWhile P cs) else c # collapseRuns P cs)"
  by pat_completeness auto

termination collapseRuns
  by (relation "measure (\<lambda>(P, s). length s)") (auto simp: less_Suc_eq_le length_dropWhile_le)

text \<open>
  The slug of a title as the specification words it, one line for each step: lowercased,
  whitespace and underscores (0x5F) collapsed to single hyphens, characters that are neither
  word characters nor hyphens stripped, repeated hyphens collapsed, leading and trailing
  hyphens trimmed, capped at 100 characters, and a trailing hyphen left by the cap removed.
  The code also trims whitespace before the first replacement.
\<close>

definition specSlugify :: "(ustring \<Rightarrow> ustring) \<Rightarrow> ustring \<Rightarrow> ustring" where
  "specSlugify lower text =
     (let lowered = lower text;
          hyphenated = collapseRuns (\<lambda>c. isSpace c \<or> c = 0x5F) lowered;
          stripped = filter (\<lambda>c. isWordChar c \<or> c = 0x2D) hyphenated;
          collapsed = collapseRuns (\<lambda>c. c = 0x2D) stripped;
          trimmed = rev (dropWhile (\<lambda>c. c = 0x2D) (rev (dropWhile (\<lambda>c. c = 0x2D) collapsed)));
          capped = take 100 trimmed
      in rev (dropWhile (\<lambda>c. c = 0x2D) (rev capped)))"

section \<open>Notions used in the statements\<close>

text \<open>The articles a merge treats as new: those of the input whose id is not in the cache.\<close>

definition uniqueNew :: "article list \<Rightarrow> world \<Rightarrow> article list" where
  "uniqueNew newArticles w =
     filter (\<lambda>a. id' a \<notin> set (map id' (fst (getCachedArticles w)))) newArticles"

text \<open>\<open>readOnly w w'\<close>: \<open>w'\<close> differs from \<open>w\<close> in the read counter at most.\<close>

definition readOnly :: "world \<Rightarrow> world \<Rightarrow> bool" where
  "readOnly w w' \<longleftrightarrow> (\<exists>n. w' = w\<lparr>reads := n\<rparr>)"

text \<open>
  The invariant of unforced refreshes: no forced call is waiting, and the flag is set exactly
  while one call is in the \<open>try\<close> block.
\<close>

definition singleFlight :: "event_loop \<Rightarrow> bool" where
  "singleFlight l \<longleftrightarrow>
     (\<forall>c\<in>set (calls l). c \<noteq> Pending True) \<and> inTry l = (if flag l then 1 else 0)"

section \<open>A reference runtime\<close>

text \<open>
  Reference built-ins for instantiating the parameter on sample inputs. The reference
  \<open>Date\<close> is after ECMA-262: time values count milliseconds from 1970-01-01T00:00:00Z in the
  proleptic Gregorian calendar; \<open>isoFormat\<close> is \<open>toISOString\<close> for the years 0 to 9999,
  and \<open>isoParse\<close> reads the UTC forms \<open>YYYY-MM-DDTHH:mm:ssZ\<close> and
  \<open>YYYY-MM-DDTHH:mm:ss.sssZ\<close>, the end of day \<open>24:00:00\<close> included, and nothing else.
\<close>

definition daysFromCivil :: "int \<Rightarrow> int \<Rightarrow> int \<Rightarrow> int" where
  "daysFromCivil y m d =
     (let y' = (if m \<le> 2 then y - 1 else y);
          era = y' div 400;
          yoe = y' - era * 400;
          doy = (153 * (if m > 2 then m - 3 else m + 9) + 2) div 5 + d - 1;
          doe = yoe * 365 + yoe div 4 - yoe div 100 + doy
      in era * 146097 + doe - 719468)"

definition civilFromDays :: "int \<Rightarrow> int \<times> int \<times> int" where
  "civilFromDays z =
     (let z' = z + 719468;
          era = z' div 146097;
          doe = z' - era * 146097;
          yoe = (doe - doe div 1460 + doe div 36524 - doe div 146096) div 365;
          doy = doe - (365 * yoe + yoe div 4 - yoe div 100);
          mp = (5 * doy + 2) div 153;
          d = doy - (153 * mp + 2) div 5 + 1;
          m = (if mp < 10 then mp + 3 else mp - 9);
          y = yoe + era * 400 + (if m \<le> 2 then 1 else 0)
      in (y, m, d))"

definition digitChars :: string where
  "digitChars = ''0123456789''"

fun decimal :: "nat \<Rightarrow> nat \<Rightarrow> string" where
  "decimal 0 k = []"
| "decimal (Suc n) k = decimal n (k div 10) @ [digitChars ! (k mod 10)]"

definition isoFormat :: "int \<Rightarrow> string" where
  "isoFormat t =
     (let day = t div 86400000;
          ms = t mod 86400000;
          (y, m, d) = civilFromDays day
      in decimal 4 (nat y) @ ''-'' @ decimal 2 (nat m) @ ''-'' @ decimal 2 (nat d) @ ''T''
         @ decimal 2 (nat (ms div 3600000)) @ '':'' @ decimal 2 (nat (ms div 60000 mod 60)) @ '':''
         @ decimal 2 (nat (ms div 1000 mod 60)) @ ''.'' @ decimal 3 (nat (ms mod 1000)) @ ''Z'')"

fun number :: "ustring \<Rightarrow> nat option" where
  "number [] = Some 0"
| "number cs =
     (if isDigit (last cs)
      then map_option (\<lambda>n. 10 * n + (unat (last cs) - 48)) (number (butlast cs))
      else None)"

definition daysInMonth :: "int \<Rightarrow> int \<Rightarrow> int" where
  "daysInMonth y m =
     (if m = 2 then (if y mod 4 = 0 \<and> (y mod 100 \<noteq> 0 \<or> y mod 400 = 0) then 29 else 28)
      else if m \<in> {4, 6, 9, 11} then 30 else 31)"

definition isoParse :: "ustring \<Rightarrow> int option" where
  "isoParse s =
     (let shape = (length s = 20 \<or> length s = 24 \<and> s ! 19 = of_char CHR ''.'')
                  \<and> s ! 4 = of_char CHR ''-'' \<and> s ! 7 = of_char CHR ''-''
                  \<and> s ! 10 = of_char CHR ''T'' \<and> s ! 13 = of_char CHR '':''
                  \<and> s ! 16 = of_char CHR '':'' \<and> last s = of_char CHR ''Z''
      in if \<not> shape then None
         else
           (case (number (take 4 s), number (take 2 (drop 5 s)), number (take 2 (drop 8 s)),
                  number (take 2 (drop 11 s)), number (take 2 (drop 14 s)),
                  number (take 2 (drop 17 s)), number (take 3 (drop 20 (butlast s)))) of
              (Some y, Some m, Some d, Some h, Some mi, Some sec, Some ms) \<Rightarrow>
                if 1 \<le> m \<and> m \<le> 12 \<and> 1 \<le> d \<and> int d \<le> daysInMonth (int y) (int m)
                   \<and> (h \<le> 23 \<and> mi \<le> 59 \<and> sec \<le> 59 \<or> h = 24 \<and> mi = 0 \<and> sec = 0 \<and> ms = 0)
                then Some ((((daysFromCivil (int y) (int m) (int d) * 24 + int h) * 60 + int mi) * 60
                            + int sec) * 1000 + int ms)
                else None
            | _ \<Rightarrow> None))"

text \<open>
  The reference \<open>toLowerCase\<close> is what \<open>String.prototype.toLowerCase\<close> does on strings of
  code units below U+0100: \<open>A\<close> to \<open>Z\<close> and U+00C0 to U+00DE, the multiplication sign
  U+00D7 apart, move up by 0x20, and every other code unit stays.
\<close>

definition latin1ToLowerCase :: "ustring \<Rightarrow> ustring" where
  "latin1ToLowerCase s =
     map (\<lambda>c. if isUpper c \<or> (0xC0 \<le> c \<and> c \<le> 0xDE \<and> c \<noteq> 0xD7) then c + 0x20 else c) s"

definition referenceBuiltins :: js_builtins where
  "referenceBuiltins =
     \<lparr>toLowerCase = latin1ToLowerCase,
      parseDate = isoParse,
      toISOString = (\<lambda>t. lit (isoFormat t))\<rparr>"

section \<open>Sample inputs\<close>

text \<open>Concrete articles and worlds on which the theorems below are instantiated.\<close>

definition sampleArticle :: "string \<Rightarrow> string \<Rightarrow> int \<Rightarrow> string option \<Rightarrow> article" where
  "sampleArticle i t d img =
     \<lparr>id' = i, title = lit t, description = [], content = [],
      link = lit (''https://example.org/'' @ i),
      pubDate = d, source = ''Example'', category = ''general'', slug = [], image' = img,
      tags = []\<rparr>"

definition emptyWorld :: world where
  "emptyWorld =
     \<lparr>files = Map.empty, clock = 0, unwritable = {}, network = (\<lambda>u. Inl NetworkError),
      newsSources = [], builtins = referenceBuiltins, isRefreshing = False, reads = 0,
      writes = 0, fetches = 0\<rparr>"

definition cachedWorld :: "int \<Rightarrow> article list \<Rightarrow> world" where
  "cachedWorld t as =
     emptyWorld\<lparr>files := [''articles.json'' \<mapsto>
        \<lparr>mtime = t, content' = Json \<lparr>feeds = None, articles = as, lastUpdated = t,
                                     version = CACHE_VERSION\<rparr>\<rparr>]\<rparr>"

definition feedWorld :: "article list \<Rightarrow> article list \<Rightarrow> world" where
  "feedWorld cached fresh =
     (cachedWorld 0 cached)
       \<lparr>network := (\<lambda>u. Inr fresh),
        newsSources := [\<lparr>name = ''Example'', url = ''https://example.org/rss'',
                         source_category = ''general'', color = ''#000000''\<rparr>]\<rparr>"

text \<open>\<open>sampleBatch n\<close>: \<open>n\<close> articles with ids \<open>n\<close>, \<open>ni\<close>, \<open>nii\<close>, ... and one publication date.\<close>

definition numbered :: "int \<Rightarrow> nat \<Rightarrow> article" where
  "numbered d n = sampleArticle (CHR ''n'' # replicate n CHR ''i'') ''Story'' d None"

definition sampleBatch :: "nat \<Rightarrow> article list" where
  "sampleBatch n = map (numbered 0) [0..<n]"

section \<open>Literals\<close>

lemma lit_Nil_iff [simp]: "lit s = [] \<longleftrightarrow> s = []"
  by (simp add: lit_def)

section \<open>Deduplication in the aggregator\<close>

lemma removeDuplicatesLoop_acc:
  "removeDuplicatesLoop lower seen acc as = acc @ removeDuplicatesLoop lower seen [] as"
proof (induction as arbitrary: seen acc)
  case Nil
  show ?case by simp
next
  case (Cons a as)
  show ?case
    using Cons.IH[of "insert (dedupKey lower a) seen" "acc @ [a]"]
          Cons.IH[of "insert (dedupKey lower a) seen" "[a]"] Cons.IH[of seen acc]
    by (simp add: Let_def)
qed

lemma removeDuplicatesLoop_Cons:
  "removeDuplicatesLoop lower seen [] (a # as) =
     (if dedupKey lower a \<notin> seen
      then a # removeDuplicatesLoop lower (insert (dedupKey lower a) seen) [] as
      else removeDuplicatesLoop lower seen [] as)"
  using removeDuplicatesLoop_acc[of lower "insert (dedupKey lower a) seen" "[a]" as]
  by (simp add: Let_def)

lemma removeDuplicatesLoop_keys:
  "dedupKey lower ` set (removeDuplicatesLoop lower seen [] as) = dedupKey lower ` set as - seen"
proof (induction as arbitrary: seen)
  case Nil
  show ?case by simp
next
  case (Cons a as)
  show ?case
    unfolding removeDuplicatesLoop_Cons
    using Cons.IH[of seen] Cons.IH[of "insert (dedupKey lower a) seen"] by auto
qed

lemma removeDuplicatesLoop_distinct:
  "distinct (map (dedupKey lower) (removeDuplicatesLoop lower seen [] as))"
proof (induction as arbitrary: seen)
  case Nil
  show ?case by simp
next
  case (Cons a as)
  show ?case
    unfolding removeDuplicatesLoop_Cons
    using Cons.IH[of seen] Cons.IH[of "insert (dedupKey lower a) seen"]
          removeDuplicatesLoop_keys[of lower "insert (dedupKey lower a) seen" as]
    by auto
qed

lemma removeDuplicatesLoop_subseq:
  "subseq (removeDuplicatesLoop lower seen [] as) as"
proof (induction as arbitrary: seen)
  case Nil
  show ?case by simp
next
  case (Cons a as)
  show ?case
    unfolding removeDuplicatesLoop_Cons
    using Cons.IH[of seen] Cons.IH[of "insert (dedupKey lower a) seen"]
    by auto
qed

lemma removeDuplicatesLoop_first:
  "x \<in> set (removeDuplicatesLoop lower seen [] as) \<Longrightarrow>
     find (\<lambda>b. dedupKey lower b = dedupKey lower x) as = Some x"
proof (induction as arbitrary: seen)
  case Nil
  then show ?case by simp
next
  case (Cons a as)
  show ?case
  proof (cases "dedupKey lower a \<in> seen")
    case True
    with Cons.prems have mem: "x \<in> set (removeDuplicatesLoop lower seen [] as)"
      by (simp add: removeDuplicatesLoop_Cons del: removeDuplicatesLoop.simps)
    then have "dedupKey lower x \<notin> seen"
      using removeDuplicatesLoop_keys[of lower seen as] by blast
    with True have "dedupKey lower a \<noteq> dedupKey lower x" by auto
    with Cons.IH[OF mem] show ?thesis by simp
  next
    case False
    with Cons.prems have
      "x = a \<or> x \<in> set (removeDuplicatesLoop lower (insert (dedupKey lower a) seen) [] as)"
      by (simp add: removeDuplicatesLoop_Cons del: removeDuplicatesLoop.simps)
    then show ?thesis
    proof
      assume "x = a"
      then show ?thesis by simp
    next
      assume mem: "x \<in> set (removeDuplicatesLoop lower (insert (dedupKey lower a) seen) [] as)"
      then have "dedupKey lower x \<notin> insert (dedupKey lower a) seen"
        using removeDuplicatesLoop_keys[of lower "insert (dedupKey lower a) seen" as] by blast
      then have "dedupKey lower a \<noteq> dedupKey lower x" by auto
      with Cons.IH[OF mem] show ?thesis by simp
    qed
  qed
qed

lemma distinct_key_once:
  "distinct (map f xs) \<Longrightarrow> k \<in> f ` set xs \<Longrightarrow> length (filter (\<lambda>a. f a = k) xs) = 1"
proof (induction xs)
  case Nil
  then show ?case by simp
next
  case (Cons x xs)
  show ?case
  proof (cases "f x = k")
    case True
    with Cons.prems have "\<forall>a\<in>set xs. f a \<noteq> k" by (fastforce simp: image_iff)
    then have "filter (\<lambda>a. f a = k) xs = []" by (simp add: filter_empty_conv)
    with True show ?thesis by simp
  next
    case False
    with Cons show ?thesis by auto
  qed
qed

text \<open>
  Claim C6, as stated, fails: with the key formed from the lowercased title with
  punctuation stripped (and nothing more), the titles \<open>Markets rally\<close> and
  \<open>Markets rally !\<close> under one link have different keys, yet \<open>removeDuplicates\<close>
  drops the second article, because the code also trims the normalized title.
\<close>

theorem removeDuplicates_stated_key_counterexample:
  "specDedupKey latin1ToLowerCase (sampleArticle ''g1'' ''Markets rally'' 9 None) \<noteq>
   specDedupKey latin1ToLowerCase
     ((sampleArticle ''g2'' ''Markets rally !'' 8 None)\<lparr>link := lit ''https://example.org/g1''\<rparr>) \<and>
   removeDuplicates latin1ToLowerCase
     [sampleArticle ''g1'' ''Markets rally'' 9 None,
      (sampleArticle ''g2'' ''Markets rally !'' 8 None)\<lparr>link := lit ''https://example.org/g1''\<rparr>]
   = [sampleArticle ''g1'' ''Markets rally'' 9 None]"
  by code_simp

text \<open>
  Claim C6, amended: with the key of the code (title lowercased by the runtime, every code
  unit that is neither a word character nor whitespace removed, the result trimmed of
  whitespace at both ends, then \<open>-\<close> and the link), \<open>removeDuplicates\<close> keeps exactly one
  article for every key of the input; each kept article is the first one of the input with
  its key; the output is the input with articles dropped, in input order; and two entries
  with the same normalized title and link yield exactly the first. Whitespace is that of
  JavaScript and word characters are \<open>[A-Za-z0-9_]\<close>: on the reference runtime and under
  one link, the title \<open>a\<close>, no-break space, \<open>b\<close> and the titles \<open>ab\<close>, \<open>a_b\<close> and
  \<open>ab1\<close> are all kept, while \<open>Markets rally\<close> absorbs \<open>MARKETS, rally!\<close> written
  between a no-break space and an ideographic space.
\<close>

theorem removeDuplicates_first_per_key:
  "(\<forall>k \<in> dedupKey lower ` set as.
      length (filter (\<lambda>a. dedupKey lower a = k) (removeDuplicates lower as)) = 1) \<and>
   (\<forall>x \<in> set (removeDuplicates lower as).
      find (\<lambda>b. dedupKey lower b = dedupKey lower x) as = Some x) \<and>
   subseq (removeDuplicates lower as) as \<and>
   (normalizedTitle lower (title a) = normalizedTitle lower (title b) \<and> link a = link b \<longrightarrow>
      removeDuplicates lower [a, b] = [a]) \<and>
   dedupKey lower a =
     rev (dropWhile isSpace (rev (dropWhile isSpace
       (filter (\<lambda>c. isWordChar c \<or> isSpace c) (lower (title a))))))
     @ [0x2D] @ link a \<and>
   removeDuplicates latin1ToLowerCase
     [(sampleArticle ''g1'' [] 9 None)\<lparr>title := [0x61, 0x00A0, 0x62]\<rparr>,
      sampleArticle ''g1'' ''ab'' 8 None,
      sampleArticle ''g1'' ''a_b'' 7 None,
      sampleArticle ''g1'' ''ab1'' 6 None]
     = [(sampleArticle ''g1'' [] 9 None)\<lparr>title := [0x61, 0x00A0, 0x62]\<rparr>,
        sampleArticle ''g1'' ''ab'' 8 None,
        sampleArticle ''g1'' ''a_b'' 7 None,
        sampleArticle ''g1'' ''ab1'' 6 None] \<and>
   removeDuplicates latin1ToLowerCase
     [sampleArticle ''g1'' ''Markets rally'' 9 None,
      (sampleArticle ''g1'' [] 8 None)\<lparr>title := [0x00A0] @ lit ''MARKETS, rally!'' @ [0x3000]\<rparr>]
     = [sampleArticle ''g1'' ''Markets rally'' 9 None]"
proof (intro conjI ballI impI)
  fix k assume "k \<in> dedupKey lower ` set as"
  then have "k \<in> dedupKey lower ` set (removeDuplicates lower as)"
    by (simp add: removeDuplicates_def removeDuplicatesLoop_keys)
  then show "length (filter (\<lambda>a. dedupKey lower a = k) (removeDuplicates lower as)) = 1"
    using removeDuplicatesLoop_distinct[of lower "{}" as]
    by (intro distinct_key_once) (simp_all add: removeDuplicates_def)
next
  fix x assume "x \<in> set (removeDuplicates lower as)"
  then show "find (\<lambda>b. dedupKey lower b = dedupKey lower x) as = Some x"
    by (simp add: removeDuplicates_def removeDuplicatesLoop_first)
next
  show "subseq (removeDuplicates lower as) as"
    by (simp add: removeDuplicates_def removeDuplicatesLoop_subseq)
next
  assume "normalizedTitle lower (title a) = normalizedTitle lower (title b) \<and> link a = link b"
  then show "removeDuplicates lower [a, b] = [a]"
    by (simp add: removeDuplicates_def dedupKey_def Let_def)
next
  show "dedupKey lower a =
     rev (dropWhile isSpace (rev (dropWhile isSpace
       (filter (\<lambda>c. isWordChar c \<or> isSpace c) (lower (title a))))))
     @ [0x2D] @ link a"
    by (simp add: dedupKey_def normalizedTitle_def trim_def trimEnd_def lit_def)
next
  show "removeDuplicates latin1ToLowerCase
     [(sampleArticle ''g1'' [] 9 None)\<lparr>title := [0x61, 0x00A0, 0x62]\<rparr>,
      sampleArticle ''g1'' ''ab'' 8 None,
      sampleArticle ''g1'' ''a_b'' 7 None,
      sampleArticle ''g1'' ''ab1'' 6 None]
     = [(sampleArticle ''g1'' [] 9 None)\<lparr>title := [0x61, 0x00A0, 0x62]\<rparr>,
        sampleArticle ''g1'' ''ab'' 8 None,
        sampleArticle ''g1'' ''a_b'' 7 None,
        sampleArticle ''g1'' ''ab1'' 6 None]"
    by code_simp
next
  show "removeDuplicates latin1ToLowerCase
     [sampleArticle ''g1'' ''Markets rally'' 9 None,
      (sampleArticle ''g1'' [] 8 None)\<lparr>title := [0x00A0] @ lit ''MARKETS, rally!'' @ [0x3000]\<rparr>]
     = [sampleArticle ''g1'' ''Markets rally'' 9 None]"
    by code_simp
qed

theorem removeDuplicates_first_per_key_witness:
  "dedupKey latin1ToLowerCase (sampleArticle ''g1'' ''Markets rally'' 9 None)
     \<in> dedupKey latin1ToLowerCase ` set [sampleArticle ''g1'' ''Markets rally'' 9 None,
                       sampleArticle ''g2'' ''Rates rise'' 8 None,
                       sampleArticle ''g1'' ''Markets RALLY!'' 7 None] \<and>
   length (filter (\<lambda>a. dedupKey latin1ToLowerCase a
                        = dedupKey latin1ToLowerCase (sampleArticle ''g1'' ''Markets rally'' 9 None))
            (removeDuplicates latin1ToLowerCase
               [sampleArticle ''g1'' ''Markets rally'' 9 None,
                sampleArticle ''g2'' ''Rates rise'' 8 None,
                sampleArticle ''g1'' ''Markets RALLY!'' 7 None])) = 1 \<and>
   sampleArticle ''g2'' ''Rates rise'' 8 None
     \<in> set (removeDuplicates latin1ToLowerCase
               [sampleArticle ''g1'' ''Markets rally'' 9 None,
                sampleArticle ''g2'' ''Rates rise'' 8 None,
                sampleArticle ''g1'' ''Markets RALLY!'' 7 None]) \<and>
   find (\<lambda>b. dedupKey latin1ToLowerCase b
              = dedupKey latin1ToLowerCase (sampleArticle ''g2'' ''Rates rise'' 8 None))
        [sampleArticle ''g1'' ''Markets rally'' 9 None,
         sampleArticle ''g2'' ''Rates rise'' 8 None,
         sampleArticle ''g1'' ''Markets RALLY!'' 7 None]
     = Some (sampleArticle ''g2'' ''Rates rise'' 8 None) \<and>
   normalizedTitle latin1ToLowerCase (title (sampleArticle ''g1'' ''Markets rally'' 9 None))
     = normalizedTitle latin1ToLowerCase (title (sampleArticle ''g1'' ''Markets RALLY!'' 7 None)) \<and>
   link (sampleArticle ''g1'' ''Markets rally'' 9 None)
     = link (sampleArticle ''g1'' ''Markets RALLY!'' 7 None) \<and>
   removeDuplicates latin1ToLowerCase
     [sampleArticle ''g1'' ''Markets rally'' 9 None,
      sampleArticle ''g1'' ''Markets RALLY!'' 7 None]
     = [sampleArticle ''g1'' ''Markets rally'' 9 None]"
proof -
  let ?a = "sampleArticle ''g1'' ''Markets rally'' 9 None"
  let ?b = "sampleArticle ''g2'' ''Rates rise'' 8 None"
  let ?c = "sampleArticle ''g1'' ''Markets RALLY!'' 7 None"
  let ?L = latin1ToLowerCase
  note t = removeDuplicates_first_per_key[of ?L "[?a, ?b, ?c]" ?a ?c]
  have k: "dedupKey ?L ?a \<in> dedupKey ?L ` set [?a, ?b, ?c]"
    by simp
  have m: "?b \<in> set (removeDuplicates ?L [?a, ?b, ?c])"
    by code_simp
  have e: "normalizedTitle ?L (title ?a) = normalizedTitle ?L (title ?c) \<and> link ?a = link ?c"
    by code_simp
  note t1 = t[THEN conjunct1, THEN bspec, OF k]
  note t2 = t[THEN conjunct2, THEN conjunct1, THEN bspec, OF m]
  note t4 = t[THEN conjunct2, THEN conjunct2, THEN conjunct2, THEN conjunct1, THEN mp, OF e]
  show ?thesis
    by (intro conjI; (rule k | rule t1 | rule m | rule t2 | rule e[THEN conjunct1]
          | rule e[THEN conjunct2] | rule t4))
qed

section \<open>Cache reads and expiry\<close>

lemma isCacheValid_eq:
  "isCacheValid f w =
     ((case files w f of None \<Rightarrow> False | Some fl \<Rightarrow> clock w - mtime fl < CACHE_EXPIRY_MS),
      w\<lparr>reads := reads w + 1\<rparr>)"
  by (simp add: isCacheValid_def fs_stat_def Let_def split: option.splits)

lemma readCacheFile_eq:
  "readCacheFile f w =
     (case files w f of
        None \<Rightarrow> (None, w\<lparr>reads := reads w + 1\<rparr>)
      | Some fl \<Rightarrow>
          if clock w - mtime fl < CACHE_EXPIRY_MS
          then ((case content' fl of
                   Garbage \<Rightarrow> None
                 | Json d \<Rightarrow> if version d = CACHE_VERSION then Some d else None),
                w\<lparr>reads := reads w + 2\<rparr>)
          else (None, w\<lparr>reads := reads w + 1\<rparr>))"
  by (simp add: readCacheFile_def isCacheValid_eq fs_readFile_def
      split: option.splits file_content.splits)

lemma readOnly_fields:
  assumes "readOnly w w'"
  shows "files w' = files w" "clock w' = clock w" "unwritable w' = unwritable w"
    "network w' = network w" "newsSources w' = newsSources w"
    "isRefreshing w' = isRefreshing w" "writes w' = writes w" "fetches w' = fetches w"
  using assms unfolding readOnly_def by auto

lemma readOnly_readCacheFile: "readOnly w (snd (readCacheFile f w))"
  unfolding readOnly_def readCacheFile_eq by (auto split: option.splits)

lemma getCachedArticles_eq:
  "getCachedArticles w =
     ((case fst (readCacheFile ''articles.json'' w) of None \<Rightarrow> [] | Some d \<Rightarrow> articles d),
      snd (readCacheFile ''articles.json'' w))"
  by (simp add: getCachedArticles_def split: prod.splits option.splits)

lemma readOnly_getCachedArticles: "readOnly w (snd (getCachedArticles w))"
  by (simp add: getCachedArticles_eq readOnly_readCacheFile)



text \<open>What \<open>addArticles\<close> returns and leaves behind, in one equation.\<close>

lemma addArticles_eq:
  "addArticles newArticles w =
     (let existing = fst (getCachedArticles w);
          w1 = snd (getCachedArticles w);
          fresh = filter (\<lambda>a. id' a \<notin> set (map id' existing)) newArticles;
          trimmed = take 1000 (sortByDate (fresh @ existing))
      in if fresh = [] then (Inr existing, w1)
         else if ''articles.json'' \<in> unwritable w then (Inl IOError, w1)
         else (Inr trimmed,
               w1\<lparr>files := (files w)(''articles.json'' \<mapsto>
                       \<lparr>mtime = clock w,
                        content' = Json \<lparr>feeds = None, articles = trimmed,
                                         lastUpdated = clock w, version = CACHE_VERSION\<rparr>\<rparr>),
                   writes := writes w + 1\<rparr>))"
proof -
  note ro = readOnly_fields[OF readOnly_getCachedArticles[of w]]
  show ?thesis
    unfolding addArticles_def cacheArticles_def writeCacheFile_def
    by (simp add: case_prod_beta Let_def ro)
qed

lemma addArticles_frame:
  "clock (snd (addArticles as w)) = clock w"
  "unwritable (snd (addArticles as w)) = unwritable w"
  "network (snd (addArticles as w)) = network w"
  "newsSources (snd (addArticles as w)) = newsSources w"
  "isRefreshing (snd (addArticles as w)) = isRefreshing w"
  "fetches (snd (addArticles as w)) = fetches w"
  using readOnly_fields[OF readOnly_getCachedArticles[of w]]
  by (simp_all add: addArticles_eq Let_def)








section \<open>Refresh: error containment\<close>

lemma refreshArticles_no_error: "\<exists>as. fst (refreshArticles force w) = Inr as"
  by (auto simp: refreshArticles_def case_prod_beta split: sum.splits)

lemma refreshArticles_fallback:
  assumes "\<not> refreshGuard (isRefreshing w) force"
    and "fst (refreshBody force (w\<lparr>isRefreshing := True\<rparr>)) = Inl e"
  shows "fst (refreshArticles force w) =
           Inr (fst (getCachedArticles (snd (refreshBody force (w\<lparr>isRefreshing := True\<rparr>)))))"
  using assms by (auto simp: refreshArticles_def case_prod_beta split: sum.splits)

lemma refreshArticles_clears_flag:
  assumes "\<not> refreshGuard (isRefreshing w) force"
  shows "isRefreshing (snd (refreshArticles force w)) = False"
  using assms by (auto simp: refreshArticles_def case_prod_beta split: sum.splits)

lemma refreshArticles_guard:
  assumes "refreshGuard (isRefreshing w) force"
  shows "refreshArticles force w = (Inr (fst (getCachedArticles w)), snd (getCachedArticles w))"
  using assms by (simp add: refreshArticles_def case_prod_beta)

text \<open>
  Claim C5, as stated, fails on one exit path: a call turned away by the single-flight
  guard (flag set, not forced) returns before the \<open>try\<close>, so no \<open>finally\<close> runs and the flag
  is still set when it returns.
\<close>

theorem refreshArticles_guard_exit_counterexample:
  "isRefreshing (snd (refreshArticles False (emptyWorld\<lparr>isRefreshing := True\<rparr>))) = True"
  by (simp add: refreshArticles_def refreshGuard_def emptyWorld_def case_prod_beta
      getCachedArticles_eq readCacheFile_eq)

text \<open>
  Claim C5, amended: no execution of \<open>refreshArticles\<close> propagates an error; when the
  \<open>try\<close> block throws (fetch, merge or persist, a rejected cache write included), the
  result is the cached article list as read at that moment; and the flag is false after
  every exit path of an execution that passed the single-flight guard, exceptional ones
  included, while an execution turned away by the guard leaves the flag as it found it.
\<close>

theorem refreshArticles_contains_errors:
  "(\<exists>as. fst (refreshArticles force w) = Inr as) \<and>
   (\<forall>e. \<not> refreshGuard (isRefreshing w) force \<and>
        fst (refreshBody force (w\<lparr>isRefreshing := True\<rparr>)) = Inl e \<longrightarrow>
      fst (refreshArticles force w) =
        Inr (fst (getCachedArticles (snd (refreshBody force (w\<lparr>isRefreshing := True\<rparr>)))))) \<and>
   (\<not> refreshGuard (isRefreshing w) force \<longrightarrow>
      isRefreshing (snd (refreshArticles force w)) = False) \<and>
   (refreshGuard (isRefreshing w) force \<longrightarrow>
      isRefreshing (snd (refreshArticles force w)) = isRefreshing w)"
proof (intro conjI allI impI)
  show "\<exists>as. fst (refreshArticles force w) = Inr as"
    by (rule refreshArticles_no_error)
next
  fix e
  assume "\<not> refreshGuard (isRefreshing w) force \<and>
          fst (refreshBody force (w\<lparr>isRefreshing := True\<rparr>)) = Inl e"
  then show "fst (refreshArticles force w) =
      Inr (fst (getCachedArticles (snd (refreshBody force (w\<lparr>isRefreshing := True\<rparr>)))))"
    using refreshArticles_fallback by blast
next
  assume "\<not> refreshGuard (isRefreshing w) force"
  then show "isRefreshing (snd (refreshArticles force w)) = False"
    by (rule refreshArticles_clears_flag)
next
  assume "refreshGuard (isRefreshing w) force"
  then show "isRefreshing (snd (refreshArticles force w)) = isRefreshing w"
    using readOnly_fields(6)[OF readOnly_getCachedArticles[of w]]
    by (simp add: refreshArticles_guard)
qed

theorem refreshArticles_contains_errors_witness:
  "\<not> refreshGuard
       (isRefreshing ((feedWorld [sampleArticle ''a'' ''Forest fire spreads'' 5 None]
                                [sampleArticle ''b'' ''Markets rally'' 6 None])
                       \<lparr>unwritable := {''articles.json''}\<rparr>)) True \<and>
   fst (refreshBody True
         ((feedWorld [sampleArticle ''a'' ''Forest fire spreads'' 5 None]
                     [sampleArticle ''b'' ''Markets rally'' 6 None])
            \<lparr>unwritable := {''articles.json''}, isRefreshing := True\<rparr>)) = Inl IOError \<and>
   fst (refreshArticles True
         ((feedWorld [sampleArticle ''a'' ''Forest fire spreads'' 5 None]
                     [sampleArticle ''b'' ''Markets rally'' 6 None])
            \<lparr>unwritable := {''articles.json''}\<rparr>))
     = Inr [sampleArticle ''a'' ''Forest fire spreads'' 5 None] \<and>
   isRefreshing (snd (refreshArticles True
         ((feedWorld [sampleArticle ''a'' ''Forest fire spreads'' 5 None]
                     [sampleArticle ''b'' ''Markets rally'' 6 None])
            \<lparr>unwritable := {''articles.json''}\<rparr>))) = False \<and>
   refreshGuard (isRefreshing (emptyWorld\<lparr>isRefreshing := True\<rparr>)) False \<and>
   isRefreshing (snd (refreshArticles False (emptyWorld\<lparr>isRefreshing := True\<rparr>)))
     = isRefreshing (emptyWorld\<lparr>isRefreshing := True\<rparr>)"
proof -
  let ?a = "sampleArticle ''a'' ''Forest fire spreads'' 5 None"
  let ?w = "(feedWorld [?a] [sampleArticle ''b'' ''Markets rally'' 6 None])
              \<lparr>unwritable := {''articles.json''}\<rparr>"
  let ?g = "emptyWorld\<lparr>isRefreshing := True\<rparr>"
  have pass: "\<not> refreshGuard (isRefreshing ?w) True"
    by (simp add: refreshGuard_def)
  have thrown: "fst (refreshBody True (?w\<lparr>isRefreshing := True\<rparr>)) = Inl IOError"
    by (simp add: refreshBody_def fetchArticlesFromSources_def fetchAndParseRSS_def
        removeDuplicates_def sortByDate_def addArticles_eq getCachedArticles_eq readCacheFile_eq
        feedWorld_def cachedWorld_def emptyWorld_def sampleArticle_def CACHE_EXPIRY_MS_def
        CACHE_VERSION_def Let_def case_prod_beta)
  have cached: "fst (getCachedArticles (snd (refreshBody True (?w\<lparr>isRefreshing := True\<rparr>)))) = [?a]"
    by (simp add: refreshBody_def fetchArticlesFromSources_def fetchAndParseRSS_def
        removeDuplicates_def sortByDate_def addArticles_eq getCachedArticles_eq readCacheFile_eq
        feedWorld_def cachedWorld_def emptyWorld_def sampleArticle_def CACHE_EXPIRY_MS_def
        CACHE_VERSION_def Let_def case_prod_beta)
  have turned: "refreshGuard (isRefreshing ?g) False"
    by (simp add: refreshGuard_def)
  note t = refreshArticles_contains_errors[of True ?w]
  note t2 = t[THEN conjunct2, THEN conjunct1, THEN spec, THEN mp, OF conjI[OF pass thrown],
      unfolded cached]
  note t3 = t[THEN conjunct2, THEN conjunct2, THEN conjunct1, THEN mp, OF pass]
  note t4 = refreshArticles_contains_errors[of False ?g,
      THEN conjunct2, THEN conjunct2, THEN conjunct2, THEN mp, OF turned]
  show ?thesis
    by (intro conjI; (rule pass | rule thrown | rule t2 | rule t3 | rule turned
          | rule t4))
qed

section \<open>Refresh: the single-flight guard\<close>

lemma count_update:
  "i < length xs \<Longrightarrow>
     length (filter P (xs[i := c])) + (if P (xs ! i) then 1 else 0)
       = length (filter P xs) + (if P c then 1 else 0)"
proof (induction xs arbitrary: i)
  case Nil
  then show ?case by simp
next
  case (Cons x xs)
  show ?case
  proof (cases i)
    case 0
    then show ?thesis by simp
  next
    case (Suc j)
    with Cons.prems have "j < length xs" by simp
    from Cons.IH[OF this] Suc show ?thesis by simp
  qed
qed

lemma singleFlight_step: "singleFlight l \<Longrightarrow> singleFlight (step i l)"
proof (cases "i < length (calls l)")
  case False
  assume "singleFlight l"
  with False show ?thesis by (simp add: step_def)
next
  case True
  assume inv: "singleFlight l"
  from True have mem: "calls l ! i \<in> set (calls l)" by simp
  have upd: "\<And>c. inTry \<lparr>flag = b, calls = (calls l)[i := c]\<rparr> + (if calls l ! i = InTry then 1 else 0)
              = inTry l + (if c = InTry then 1 else 0)" for b
    using count_update[OF True, of "\<lambda>c. c = InTry"] by (simp add: inTry_def)
  have sub: "\<And>c. set ((calls l)[i := c]) \<subseteq> insert c (set (calls l))"
    by (rule set_update_subset_insert)
  show ?thesis
  proof (cases "calls l ! i")
    case (Pending force)
    with inv mem have nf: "\<not> force" by (auto simp: singleFlight_def)
    show ?thesis
    proof (cases "flag l")
      case True
      with Pending nf \<open>i < length (calls l)\<close> inv upd[of True ServingCache] sub[of ServingCache]
      show ?thesis
        by (auto simp: step_def singleFlight_def refreshGuard_def)
    next
      case False
      with Pending nf \<open>i < length (calls l)\<close> inv upd[of True InTry] sub[of InTry]
      show ?thesis
        by (auto simp: step_def singleFlight_def refreshGuard_def)
    qed
  next
    case ServingCache
    with True inv upd[of "flag l" Returned] sub[of Returned]
    show ?thesis by (auto simp: step_def singleFlight_def)
  next
    case InTry
    with mem have "InTry \<in> set (filter (\<lambda>c. c = InTry) (calls l))" by simp
    then have "inTry l \<ge> 1"
      unfolding inTry_def by (metis One_nat_def Suc_leI length_pos_if_in_set)
    with InTry True inv upd[of False Returned] sub[of Returned]
    show ?thesis by (auto simp: step_def singleFlight_def split: if_splits)
  next
    case Returned
    with True inv upd[of "flag l" Returned] sub[of Returned]
    show ?thesis by (auto simp: step_def singleFlight_def)
  qed
qed

lemma singleFlight_run: "singleFlight l \<Longrightarrow> singleFlight (run schedule l)"
  unfolding run_def by (induction schedule arbitrary: l) (simp_all add: singleFlight_step)

lemma singleFlight_init:
  assumes "flag l = False" "\<forall>c\<in>set (calls l). c = Pending False"
  shows "singleFlight l"
proof -
  have "filter (\<lambda>c. c = InTry) (calls l) = []"
    using assms(2) by (auto simp: filter_empty_conv)
  with assms show ?thesis by (auto simp: singleFlight_def inTry_def)
qed

text \<open>
  Claim C4, as stated, fails in its last part: a forced refresh passes the guard while
  another refresh is in its \<open>try\<close> block, and then two refreshes do mutating work at once.
\<close>

theorem forced_refresh_concurrent_counterexample:
  "inTry (run [0, 1] \<lparr>flag = False, calls = [Pending False, Pending True]\<rparr>) = 2"
  by (simp add: run_def step_def inTry_def refreshGuard_def)

text \<open>
  Claim C4, amended: whenever \<open>refreshArticles(false)\<close> is called while the flag is set, it
  returns the current cached article list without a fetch, a write or a change of any file;
  and among refreshes that are all unforced, at most one is inside the \<open>try\<close> block, where
  the mutating work is done, at any time.
\<close>

theorem refreshArticles_single_flight:
  "(isRefreshing w \<longrightarrow>
      fst (refreshArticles False w) = Inr (fst (getCachedArticles w)) \<and>
      fetches (snd (refreshArticles False w)) = fetches w \<and>
      writes (snd (refreshArticles False w)) = writes w \<and>
      files (snd (refreshArticles False w)) = files w) \<and>
   (flag l = False \<and> (\<forall>c\<in>set (calls l). c = Pending False) \<longrightarrow>
      inTry (run schedule l) \<le> 1)"
proof (intro conjI impI)
  assume "isRefreshing w"
  then have g: "refreshArticles False w = (Inr (fst (getCachedArticles w)), snd (getCachedArticles w))"
    by (simp add: refreshArticles_guard refreshGuard_def)
  note ro = readOnly_fields[OF readOnly_getCachedArticles[of w]]
  show "fst (refreshArticles False w) = Inr (fst (getCachedArticles w))"
    by (simp add: g)
  show "fetches (snd (refreshArticles False w)) = fetches w"
    by (simp add: g ro(8))
  show "writes (snd (refreshArticles False w)) = writes w"
    by (simp add: g ro(7))
  show "files (snd (refreshArticles False w)) = files w"
    by (simp add: g ro(1))
next
  assume a: "flag l = False \<and> (\<forall>c\<in>set (calls l). c = Pending False)"
  then have "singleFlight l"
    by (intro singleFlight_init) simp_all
  from singleFlight_run[OF this, of schedule]
  show "inTry (run schedule l) \<le> 1"
    by (simp add: singleFlight_def)
qed

theorem refreshArticles_single_flight_witness:
  "isRefreshing ((feedWorld [sampleArticle ''a'' ''Forest fire spreads'' 5 None]
                            [sampleArticle ''b'' ''Markets rally'' 6 None])\<lparr>isRefreshing := True\<rparr>) \<and>
   fst (refreshArticles False
          ((feedWorld [sampleArticle ''a'' ''Forest fire spreads'' 5 None]
                      [sampleArticle ''b'' ''Markets rally'' 6 None])\<lparr>isRefreshing := True\<rparr>))
     = Inr [sampleArticle ''a'' ''Forest fire spreads'' 5 None] \<and>
   fetches (snd (refreshArticles False
          ((feedWorld [sampleArticle ''a'' ''Forest fire spreads'' 5 None]
                      [sampleArticle ''b'' ''Markets rally'' 6 None])\<lparr>isRefreshing := True\<rparr>)))
     = fetches ((feedWorld [sampleArticle ''a'' ''Forest fire spreads'' 5 None]
                           [sampleArticle ''b'' ''Markets rally'' 6 None])\<lparr>isRefreshing := True\<rparr>) \<and>
   flag \<lparr>flag = False, calls = [Pending False, Pending False, Pending False]\<rparr> = False \<and>
   calls \<lparr>flag = False, calls = [Pending False, Pending False, Pending False]\<rparr>
     = [Pending False, Pending False, Pending False] \<and>
   inTry (run [0, 1, 0, 2, 1]
            \<lparr>flag = False, calls = [Pending False, Pending False, Pending False]\<rparr>) \<le> 1"
proof -
  let ?a = "sampleArticle ''a'' ''Forest fire spreads'' 5 None"
  let ?w = "(feedWorld [?a] [sampleArticle ''b'' ''Markets rally'' 6 None])\<lparr>isRefreshing := True\<rparr>"
  let ?l = "\<lparr>flag = False, calls = [Pending False, Pending False, Pending False]\<rparr>"
  have busy: "isRefreshing ?w"
    by simp
  have cached: "fst (getCachedArticles ?w) = [?a]"
    by (simp add: getCachedArticles_eq readCacheFile_eq feedWorld_def cachedWorld_def
        emptyWorld_def CACHE_EXPIRY_MS_def)
  have idle: "flag ?l = False"
    by simp
  have waiting: "calls ?l = [Pending False, Pending False, Pending False]"
    by simp
  have unforced: "\<forall>c\<in>set (calls ?l). c = Pending False"
    by simp
  note t = refreshArticles_single_flight[of ?w ?l "[0, 1, 0, 2, 1]"]
  note t1 = t[THEN conjunct1, THEN mp, OF busy, unfolded cached]
  note t2 = t[THEN conjunct2, THEN mp, OF conjI[OF idle unforced]]
  show ?thesis
    by (intro conjI; (rule busy | rule t1[THEN conjunct1]
          | rule t1[THEN conjunct2, THEN conjunct1] | rule idle | rule waiting | rule t2))
qed

section \<open>Merging into the cache\<close>

lemma addArticles_result:
  "fst (addArticles newArticles w) =
     (if uniqueNew newArticles w = [] then Inr (fst (getCachedArticles w))
      else if ''articles.json'' \<in> unwritable w then Inl IOError
      else Inr (take 1000 (sortByDate (uniqueNew newArticles w @ fst (getCachedArticles w)))))"
  by (simp add: addArticles_eq uniqueNew_def Let_def)

lemma addArticles_no_write:
  assumes "uniqueNew newArticles w = [] \<or> ''articles.json'' \<in> unwritable w"
  shows "writes (snd (addArticles newArticles w)) = writes w"
    and "files (snd (addArticles newArticles w)) = files w"
  using assms readOnly_fields[OF readOnly_getCachedArticles[of w]]
  by (auto simp: addArticles_eq uniqueNew_def Let_def)

lemma fst_getCachedArticles:
  "fst (getCachedArticles w) =
     (case files w ''articles.json'' of
        None \<Rightarrow> []
      | Some fl \<Rightarrow>
          if clock w - mtime fl < CACHE_EXPIRY_MS
          then (case content' fl of
                  Garbage \<Rightarrow> []
                | Json d \<Rightarrow> if version d = CACHE_VERSION then articles d else [])
          else [])"
  by (simp add: getCachedArticles_eq readCacheFile_eq split: option.splits file_content.splits)

lemma getCachedArticles_cong:
  assumes "files w' = files w" "clock w' = clock w"
  shows "fst (getCachedArticles w') = fst (getCachedArticles w)"
  by (simp add: fst_getCachedArticles assms split: option.splits)

lemma cached_after_addArticles:
  "fst (getCachedArticles (snd (addArticles newArticles w))) =
     (case fst (addArticles newArticles w) of
        Inr r \<Rightarrow> r
      | Inl e \<Rightarrow> fst (getCachedArticles w))"
proof (cases "uniqueNew newArticles w = [] \<or> ''articles.json'' \<in> unwritable w")
  case True
  have "fst (getCachedArticles (snd (addArticles newArticles w))) = fst (getCachedArticles w)"
    by (rule getCachedArticles_cong)
       (simp_all add: addArticles_no_write(2)[OF True] addArticles_frame)
  with True show ?thesis
    by (auto simp: addArticles_result)
next
  case False
  note ro = readOnly_fields[OF readOnly_getCachedArticles[of w]]
  from False show ?thesis
    by (simp add: addArticles_eq uniqueNew_def Let_def
        fst_getCachedArticles[of "_\<lparr>files := _, writes := _\<rparr>"] ro CACHE_EXPIRY_MS_def)
qed

lemma sorted_take_drop:
  assumes "sorted (map f xs)" "k \<in> set (take n xs)" "d \<in> set (drop n xs)"
  shows "f k \<le> f d"
proof -
  have "sorted (map f (take n xs) @ map f (drop n xs))"
    using assms(1) by (simp flip: map_append)
  then show ?thesis
    using assms(2,3) by (auto simp: sorted_append)
qed

lemma sortByDate_newest_first:
  assumes "k \<in> set (take n (sortByDate as))" "d \<in> set (drop n (sortByDate as))"
  shows "pubDate d \<le> pubDate k"
  using sorted_take_drop[of "\<lambda>a. - pubDate a" "sortByDate as" k n d] assms
  by (simp add: sortByDate_def)

lemma length_sampleBatch: "length (sampleBatch n) = n"
  by (simp add: sampleBatch_def)

lemma cached_cachedWorld: "fst (getCachedArticles (cachedWorld 0 as)) = as"
  by (simp add: fst_getCachedArticles cachedWorld_def emptyWorld_def CACHE_EXPIRY_MS_def)

lemma id_numbered: "id' (numbered d n) = CHR ''n'' # replicate n CHR ''i''"
  by (simp add: numbered_def sampleArticle_def)

lemma ids_sampleBatch: "id' ` set (sampleBatch n) = (\<lambda>k. CHR ''n'' # replicate k CHR ''i'') ` {0..<n}"
  by (simp add: sampleBatch_def image_image id_numbered)

lemma uniqueNew_empty_iff:
  "uniqueNew L w = [] \<longleftrightarrow> (\<forall>a\<in>set L. id' a \<in> id' ` set (fst (getCachedArticles w)))"
  by (auto simp: uniqueNew_def filter_empty_conv)

lemma ids_after_merge:
  assumes "fst (addArticles L w) = Inr r"
    and "length (uniqueNew L w @ fst (getCachedArticles w)) \<le> 1000"
  shows "id' ` set L \<subseteq> id' ` set r"
proof (cases "uniqueNew L w = []")
  case True
  with assms(1) have "r = fst (getCachedArticles w)"
    by (simp add: addArticles_result)
  with True show ?thesis
    by (auto simp: uniqueNew_empty_iff)
next
  case False
  with assms have "r = sortByDate (uniqueNew L w @ fst (getCachedArticles w))"
    by (simp add: addArticles_result sortByDate_def split: if_splits)
  then have "set r = set (uniqueNew L w) \<union> set (fst (getCachedArticles w))"
    by (simp add: sortByDate_def)
  then show ?thesis
    by (auto simp: uniqueNew_def)
qed

lemma distinct_ids_sortByDate: "distinct (map id' (sortByDate as)) = distinct (map id' as)"
proof -
  have "mset (map id' (sortByDate as)) = mset (map id' as)"
    by (simp add: sortByDate_def)
  then show ?thesis
    by (rule mset_eq_imp_distinct_iff)
qed

lemma distinct_ids_merged:
  assumes "distinct (map id' L)" "distinct (map id' (fst (getCachedArticles w)))"
  shows "distinct (map id' (uniqueNew L w @ fst (getCachedArticles w)))"
  using assms by (auto simp: uniqueNew_def distinct_map_filter)

lemma distinct_ids_after_merge:
  assumes "fst (addArticles L w) = Inr r"
    and "distinct (map id' L)" "distinct (map id' (fst (getCachedArticles w)))"
  shows "distinct (map id' r)"
proof (cases "uniqueNew L w = []")
  case True
  with assms(1,3) show ?thesis
    by (simp add: addArticles_result)
next
  case False
  with assms(1) have r: "r = take 1000 (sortByDate (uniqueNew L w @ fst (getCachedArticles w)))"
    by (simp add: addArticles_result split: if_splits)
  have "distinct (map id' (sortByDate (uniqueNew L w @ fst (getCachedArticles w))))"
    using distinct_ids_merged[OF assms(2,3)] by (simp only: distinct_ids_sortByDate)
  then show ?thesis
    unfolding r by (simp only: take_map[symmetric] distinct_take)
qed

lemma sorted_same_key: "\<forall>a\<in>set xs. f a = c \<Longrightarrow> sorted (map f xs)"
  by (induction xs) auto

lemma sortByDate_same_date: "\<forall>a\<in>set as. pubDate a = c \<Longrightarrow> sortByDate as = as"
  unfolding sortByDate_def
  by (rule sort_key_id_if_sorted, rule sorted_same_key[of _ _ "- c"]) simp

lemma pubDate_numbered: "pubDate (numbered d n) = d"
  by (simp add: numbered_def sampleArticle_def)

lemma pubDate_sampleBatch: "\<forall>a\<in>set (sampleBatch n). pubDate a = 0"
  by (auto simp: sampleBatch_def pubDate_numbered)

lemma take_sampleBatch: "n \<le> m \<Longrightarrow> take n (sampleBatch m) = sampleBatch n"
  by (simp add: sampleBatch_def take_map min_def)

lemma sampleBatch_Suc: "sampleBatch (Suc n) = sampleBatch n @ [numbered 0 n]"
  by (simp add: sampleBatch_def)

lemma numbered_id_in_batch: "id' (numbered d k) \<in> id' ` set (sampleBatch n) \<longleftrightarrow> k < n"
proof -
  have "replicate k CHR ''i'' = replicate j CHR ''i'' \<longleftrightarrow> k = j" for j
    by (metis length_replicate)
  then show ?thesis
    by (auto simp: ids_sampleBatch id_numbered)
qed

lemma new_in_batch:
  "filter (\<lambda>a. id' a \<notin> id' ` set (sampleBatch n)) (sampleBatch (Suc n)) = [numbered 0 n]"
proof -
  have "filter (\<lambda>a. id' a \<notin> id' ` set (sampleBatch n)) (sampleBatch n) = []"
    by (simp add: filter_empty_conv)
  then show ?thesis
    by (simp add: sampleBatch_Suc numbered_id_in_batch)
qed

lemma cached_emptyWorld: "fst (getCachedArticles emptyWorld) = []"
  by (simp add: fst_getCachedArticles emptyWorld_def)

subsection \<open>Bounded retention\<close>

text \<open>
  Claim C2, as stated, fails for a cache state that already holds more than 1000 articles:
  a merge that finds no new id returns the cached list as it is, without the truncation.
\<close>

theorem addArticles_oversized_cache_counterexample:
  "length (fst (getCachedArticles (snd (addArticles [] (cachedWorld 0 (sampleBatch 1001)))))) = 1001"
  by (simp add: cached_after_addArticles addArticles_result uniqueNew_def cached_cachedWorld
      length_sampleBatch)

text \<open>
  Claim C2, amended: for every cache state whose cached list has at most 1000 elements and
  every merge input, the cached list after \<open>addArticles\<close> has at most 1000 elements; a merge
  that returns leaves its result as the cached list; and when the new articles together
  with the existing ones exceed 1000, exactly 1000 are retained, each at least as recent by
  \<open>pubDate\<close> as every article left out.
\<close>

theorem addArticles_bounded_retention:
  "length (fst (getCachedArticles w)) \<le> 1000 \<longrightarrow>
     length (fst (getCachedArticles (snd (addArticles newArticles w)))) \<le> 1000 \<and>
     (\<forall>r. fst (addArticles newArticles w) = Inr r \<longrightarrow>
        fst (getCachedArticles (snd (addArticles newArticles w))) = r \<and>
        (1000 < length (uniqueNew newArticles w @ fst (getCachedArticles w)) \<longrightarrow>
           length r = 1000 \<and>
           (\<exists>dropped.
              mset (uniqueNew newArticles w @ fst (getCachedArticles w)) = mset r + mset dropped \<and>
              (\<forall>k\<in>set r. \<forall>d\<in>set dropped. pubDate d \<le> pubDate k))))"
proof (intro impI conjI allI)
  assume small: "length (fst (getCachedArticles w)) \<le> 1000"
  show "length (fst (getCachedArticles (snd (addArticles newArticles w)))) \<le> 1000"
    using small by (simp add: cached_after_addArticles addArticles_result)
next
  fix r
  assume small: "length (fst (getCachedArticles w)) \<le> 1000"
    and ok: "fst (addArticles newArticles w) = Inr r"
  show "fst (getCachedArticles (snd (addArticles newArticles w))) = r"
    by (simp add: cached_after_addArticles ok)
  assume big: "1000 < length (uniqueNew newArticles w @ fst (getCachedArticles w))"
  let ?all = "sortByDate (uniqueNew newArticles w @ fst (getCachedArticles w))"
  from small big have "uniqueNew newArticles w \<noteq> []" by auto
  with ok have r: "r = take 1000 ?all"
    by (simp add: addArticles_result split: if_splits)
  show "length r = 1000"
    using big by (simp add: r sortByDate_def)
  have "mset r + mset (drop 1000 ?all) = mset (take 1000 ?all @ drop 1000 ?all)"
    unfolding r by (simp only: mset_append)
  also have "\<dots> = mset ?all"
    by (simp only: append_take_drop_id)
  also have "\<dots> = mset (uniqueNew newArticles w @ fst (getCachedArticles w))"
    by (simp add: sortByDate_def)
  finally have m: "mset (uniqueNew newArticles w @ fst (getCachedArticles w))
      = mset r + mset (drop 1000 ?all)"
    by (rule sym)
  have "\<forall>k\<in>set r. \<forall>d\<in>set (drop 1000 ?all). pubDate d \<le> pubDate k"
    using sortByDate_newest_first by (auto simp: r)
  with m show "\<exists>dropped.
      mset (uniqueNew newArticles w @ fst (getCachedArticles w)) = mset r + mset dropped \<and>
      (\<forall>k\<in>set r. \<forall>d\<in>set dropped. pubDate d \<le> pubDate k)"
    by blast
qed

theorem addArticles_bounded_retention_witness:
  "length (fst (getCachedArticles (cachedWorld 0 (sampleBatch 1000)))) \<le> 1000 \<and>
   fst (addArticles [sampleArticle ''x'' ''Newest'' 5 None] (cachedWorld 0 (sampleBatch 1000)))
     = Inr (take 1000 (sortByDate ([sampleArticle ''x'' ''Newest'' 5 None] @ sampleBatch 1000))) \<and>
   1000 < length (uniqueNew [sampleArticle ''x'' ''Newest'' 5 None] (cachedWorld 0 (sampleBatch 1000))
                  @ fst (getCachedArticles (cachedWorld 0 (sampleBatch 1000)))) \<and>
   length (fst (getCachedArticles
     (snd (addArticles [sampleArticle ''x'' ''Newest'' 5 None] (cachedWorld 0 (sampleBatch 1000))))))
     \<le> 1000 \<and>
   length (take 1000 (sortByDate ([sampleArticle ''x'' ''Newest'' 5 None] @ sampleBatch 1000))) = 1000 \<and>
   (\<exists>dropped.
      mset (uniqueNew [sampleArticle ''x'' ''Newest'' 5 None] (cachedWorld 0 (sampleBatch 1000))
            @ fst (getCachedArticles (cachedWorld 0 (sampleBatch 1000))))
        = mset (take 1000 (sortByDate ([sampleArticle ''x'' ''Newest'' 5 None] @ sampleBatch 1000)))
          + mset dropped \<and>
      (\<forall>k\<in>set (take 1000 (sortByDate ([sampleArticle ''x'' ''Newest'' 5 None] @ sampleBatch 1000))).
         \<forall>d\<in>set dropped. pubDate d \<le> pubDate k))"
proof -
  let ?x = "sampleArticle ''x'' ''Newest'' 5 None"
  let ?w = "cachedWorld 0 (sampleBatch 1000)"
  let ?r = "take 1000 (sortByDate ([?x] @ sampleBatch 1000))"
  have small: "length (fst (getCachedArticles ?w)) \<le> 1000"
    by (simp add: cached_cachedWorld length_sampleBatch)
  have new: "uniqueNew [?x] ?w = [?x]"
    by (auto simp: uniqueNew_def cached_cachedWorld ids_sampleBatch sampleArticle_def)
  have wr: "unwritable ?w = {}"
    by (simp add: cachedWorld_def emptyWorld_def)
  have ok: "fst (addArticles [?x] ?w) = Inr ?r"
    by (simp add: addArticles_result new cached_cachedWorld wr)
  have big: "1000 < length (uniqueNew [?x] ?w @ fst (getCachedArticles ?w))"
    by (simp add: new cached_cachedWorld length_sampleBatch)
  note t = addArticles_bounded_retention[of ?w "[?x]", THEN mp, OF small]
  note t1 = t[THEN conjunct1]
  note t2 = t[THEN conjunct2, THEN spec, THEN mp, OF ok, THEN conjunct2, THEN mp, OF big,
      THEN conjunct1]
  note t3 = t[THEN conjunct2, THEN spec, THEN mp, OF ok, THEN conjunct2, THEN mp, OF big,
      THEN conjunct2]
  show ?thesis
    by (intro conjI; (rule small | rule ok | rule big | rule t1 | rule t2 | rule t3))
qed

subsection \<open>Ids within the cache\<close>

text \<open>
  Claim C8 does not hold of the code. The filter of \<open>addArticles\<close> compares each new
  article with the ids already cached only, so two articles of one batch that share an id,
  here a GUID under two titles, are both stored.
\<close>

theorem addArticles_repeated_id_in_batch:
  "id' (sampleArticle ''guid-1'' ''Budget vote delayed'' 9 None)
     = id' (sampleArticle ''guid-1'' ''Budget vote postponed again'' 8 None) \<and>
   fst (addArticles [sampleArticle ''guid-1'' ''Budget vote delayed'' 9 None,
                     sampleArticle ''guid-1'' ''Budget vote postponed again'' 8 None] emptyWorld)
     = Inr [sampleArticle ''guid-1'' ''Budget vote delayed'' 9 None,
            sampleArticle ''guid-1'' ''Budget vote postponed again'' 8 None] \<and>
   \<not> distinct (map id' (fst (getCachedArticles (snd (addArticles
         [sampleArticle ''guid-1'' ''Budget vote delayed'' 9 None,
          sampleArticle ''guid-1'' ''Budget vote postponed again'' 8 None] emptyWorld)))))"
proof -
  let ?a = "sampleArticle ''guid-1'' ''Budget vote delayed'' 9 None"
  let ?b = "sampleArticle ''guid-1'' ''Budget vote postponed again'' 8 None"
  have e: "fst (getCachedArticles emptyWorld) = []"
    by (simp add: fst_getCachedArticles emptyWorld_def)
  have wr: "unwritable emptyWorld = {}"
    by (simp add: emptyWorld_def)
  have r: "fst (addArticles [?a, ?b] emptyWorld) = Inr [?a, ?b]"
    by (simp add: addArticles_result uniqueNew_def e wr sortByDate_def sampleArticle_def)
  show ?thesis
    by (simp add: cached_after_addArticles r) (simp add: sampleArticle_def)
qed

subsection \<open>Merging twice\<close>

text \<open>
  Claim C1, as stated, fails at the retention bound: 1001 new articles of one publication
  date are merged into an empty cache, the first 1000 are kept; merging the same list again
  finds the 1001st new, puts it first among its equals and drops another one, so the
  cached list changes.
\<close>

theorem addArticles_twice_at_bound_counterexample:
  "fst (getCachedArticles
         (snd (addArticles (sampleBatch 1001) (snd (addArticles (sampleBatch 1001) emptyWorld)))))
   \<noteq> fst (getCachedArticles (snd (addArticles (sampleBatch 1001) emptyWorld)))"
proof -
  let ?L = "sampleBatch 1001"
  let ?w1 = "snd (addArticles ?L emptyWorld)"
  have ne: "?L \<noteq> []"
    by (simp add: sampleBatch_def)
  have new1: "uniqueNew ?L emptyWorld = ?L"
    by (simp add: uniqueNew_def cached_emptyWorld)
  have wr: "unwritable emptyWorld = {}"
    by (simp add: emptyWorld_def)
  have r1: "fst (addArticles ?L emptyWorld) = Inr (sampleBatch 1000)"
    by (simp add: addArticles_result new1 ne wr cached_emptyWorld
        sortByDate_same_date[OF pubDate_sampleBatch] take_sampleBatch)
  have c1: "fst (getCachedArticles ?w1) = sampleBatch 1000"
    by (simp add: cached_after_addArticles r1)
  have "uniqueNew ?L ?w1 = filter (\<lambda>a. id' a \<notin> id' ` set (sampleBatch 1000)) (sampleBatch (Suc 1000))"
    by (simp add: uniqueNew_def c1)
  then have new2: "uniqueNew ?L ?w1 = [numbered 0 1000]"
    by (simp only: new_in_batch)
  have wr1: "unwritable ?w1 = {}"
    by (simp add: addArticles_frame wr)
  have same: "\<forall>a\<in>set (numbered 0 1000 # sampleBatch 1000). pubDate a = 0"
    using pubDate_sampleBatch[of 1000] by (simp add: pubDate_numbered)
  have r2: "fst (addArticles ?L ?w1) = Inr (take 1000 (numbered 0 1000 # sampleBatch 1000))"
    by (simp only: addArticles_result new2 c1 wr1 sortByDate_same_date[OF same] append_Cons
        append_Nil) simp
  have c2: "fst (getCachedArticles (snd (addArticles ?L ?w1)))
      = take 1000 (numbered 0 1000 # sampleBatch 1000)"
    by (simp add: cached_after_addArticles r2)
  have h2: "hd (take 1000 (numbered 0 1000 # sampleBatch 1000)) = numbered 0 1000"
    by (simp add: take_Cons')
  have h1: "hd (sampleBatch 1000) = numbered 0 0"
    by (simp add: sampleBatch_def hd_map)
  have "numbered 0 1000 \<noteq> numbered 0 0"
    by (simp add: numbered_def sampleArticle_def)
  with h1 h2 have "take 1000 (numbered 0 1000 # sampleBatch 1000) \<noteq> sampleBatch 1000"
    by metis
  then show ?thesis
    by (simp only: c1 c2 not_False_eq_True)
qed

text \<open>
  Claim C1, amended: for every article list L whose new articles together with the cached
  ones fit the bound of 1000, if the first \<open>addArticles\<close> with L returns a list and the
  snapshot is still read as that list when the second call is made (it has not expired), then
  the second call with L returns the same list and writes nothing, and that list has no
  duplicate ids when neither L nor the cached list had any; in particular, when every
  article of the input already has its id in the cache, the cached list is returned
  unchanged and no write occurs.
\<close>

theorem addArticles_idempotent:
  "(fst (addArticles L w) = Inr r \<and>
    length (uniqueNew L w @ fst (getCachedArticles w)) \<le> 1000 \<and>
    fst (getCachedArticles ((snd (addArticles L w))\<lparr>clock := t\<rparr>)) = r \<longrightarrow>
      fst (addArticles L ((snd (addArticles L w))\<lparr>clock := t\<rparr>)) = Inr r \<and>
      fst (getCachedArticles (snd (addArticles L ((snd (addArticles L w))\<lparr>clock := t\<rparr>)))) = r \<and>
      writes (snd (addArticles L ((snd (addArticles L w))\<lparr>clock := t\<rparr>)))
        = writes (snd (addArticles L w)) \<and>
      files (snd (addArticles L ((snd (addArticles L w))\<lparr>clock := t\<rparr>)))
        = files (snd (addArticles L w)) \<and>
      (distinct (map id' L) \<and> distinct (map id' (fst (getCachedArticles w))) \<longrightarrow>
         distinct (map id' r))) \<and>
   ((\<forall>a\<in>set L. id' a \<in> set (map id' (fst (getCachedArticles w)))) \<longrightarrow>
      fst (addArticles L w) = Inr (fst (getCachedArticles w)) \<and>
      writes (snd (addArticles L w)) = writes w \<and>
      files (snd (addArticles L w)) = files w)"
proof (intro conjI impI)
  assume a: "fst (addArticles L w) = Inr r \<and>
    length (uniqueNew L w @ fst (getCachedArticles w)) \<le> 1000 \<and>
    fst (getCachedArticles ((snd (addArticles L w))\<lparr>clock := t\<rparr>)) = r"
  let ?w2 = "(snd (addArticles L w))\<lparr>clock := t\<rparr>"
  from a have ids: "id' ` set L \<subseteq> id' ` set r"
    using ids_after_merge by blast
  with a have none: "uniqueNew L ?w2 = []"
    by (auto simp: uniqueNew_empty_iff)
  show second: "fst (addArticles L ?w2) = Inr r"
    using a by (simp add: addArticles_result none)
  show "fst (getCachedArticles (snd (addArticles L ?w2))) = r"
    by (simp add: cached_after_addArticles second)
  show "writes (snd (addArticles L ?w2)) = writes (snd (addArticles L w))"
    using addArticles_no_write(1)[of L ?w2] none by simp
  show "files (snd (addArticles L ?w2)) = files (snd (addArticles L w))"
    using addArticles_no_write(2)[of L ?w2] none by simp
  assume "distinct (map id' L) \<and> distinct (map id' (fst (getCachedArticles w)))"
  with a show "distinct (map id' r)"
    using distinct_ids_after_merge by blast
next
  assume "\<forall>a\<in>set L. id' a \<in> set (map id' (fst (getCachedArticles w)))"
  then have none: "uniqueNew L w = []"
    by (simp add: uniqueNew_empty_iff)
  show "fst (addArticles L w) = Inr (fst (getCachedArticles w))"
    by (simp add: addArticles_result none)
  show "writes (snd (addArticles L w)) = writes w"
    using addArticles_no_write(1)[of L w] none by simp
  show "files (snd (addArticles L w)) = files w"
    using addArticles_no_write(2)[of L w] none by simp
qed

theorem addArticles_idempotent_witness:
  "fst (addArticles [sampleArticle ''a'' ''Forest fire spreads'' 5 None,
                     sampleArticle ''b'' ''Markets rally'' 6 None]
          (cachedWorld 0 [sampleArticle ''a'' ''Forest fire spreads'' 5 None]))
     = Inr [sampleArticle ''b'' ''Markets rally'' 6 None,
            sampleArticle ''a'' ''Forest fire spreads'' 5 None] \<and>
   length (uniqueNew [sampleArticle ''a'' ''Forest fire spreads'' 5 None,
                      sampleArticle ''b'' ''Markets rally'' 6 None]
             (cachedWorld 0 [sampleArticle ''a'' ''Forest fire spreads'' 5 None])
           @ fst (getCachedArticles (cachedWorld 0 [sampleArticle ''a'' ''Forest fire spreads'' 5 None])))
     \<le> 1000 \<and>
   fst (getCachedArticles
         ((snd (addArticles [sampleArticle ''a'' ''Forest fire spreads'' 5 None,
                             sampleArticle ''b'' ''Markets rally'' 6 None]
                  (cachedWorld 0 [sampleArticle ''a'' ''Forest fire spreads'' 5 None])))
            \<lparr>clock := 60000\<rparr>))
     = [sampleArticle ''b'' ''Markets rally'' 6 None,
        sampleArticle ''a'' ''Forest fire spreads'' 5 None] \<and>
   fst (addArticles [sampleArticle ''a'' ''Forest fire spreads'' 5 None,
                     sampleArticle ''b'' ''Markets rally'' 6 None]
         ((snd (addArticles [sampleArticle ''a'' ''Forest fire spreads'' 5 None,
                             sampleArticle ''b'' ''Markets rally'' 6 None]
                  (cachedWorld 0 [sampleArticle ''a'' ''Forest fire spreads'' 5 None])))
            \<lparr>clock := 60000\<rparr>))
     = Inr [sampleArticle ''b'' ''Markets rally'' 6 None,
            sampleArticle ''a'' ''Forest fire spreads'' 5 None] \<and>
   fst (getCachedArticles (snd (addArticles [sampleArticle ''a'' ''Forest fire spreads'' 5 None,
                                             sampleArticle ''b'' ''Markets rally'' 6 None]
         ((snd (addArticles [sampleArticle ''a'' ''Forest fire spreads'' 5 None,
                             sampleArticle ''b'' ''Markets rally'' 6 None]
                  (cachedWorld 0 [sampleArticle ''a'' ''Forest fire spreads'' 5 None])))
            \<lparr>clock := 60000\<rparr>))))
     = [sampleArticle ''b'' ''Markets rally'' 6 None,
        sampleArticle ''a'' ''Forest fire spreads'' 5 None] \<and>
   writes (snd (addArticles [sampleArticle ''a'' ''Forest fire spreads'' 5 None,
                             sampleArticle ''b'' ''Markets rally'' 6 None]
         ((snd (addArticles [sampleArticle ''a'' ''Forest fire spreads'' 5 None,
                             sampleArticle ''b'' ''Markets rally'' 6 None]
                  (cachedWorld 0 [sampleArticle ''a'' ''Forest fire spreads'' 5 None])))
            \<lparr>clock := 60000\<rparr>)))
     = writes (snd (addArticles [sampleArticle ''a'' ''Forest fire spreads'' 5 None,
                                 sampleArticle ''b'' ''Markets rally'' 6 None]
                      (cachedWorld 0 [sampleArticle ''a'' ''Forest fire spreads'' 5 None]))) \<and>
   distinct (map id' [sampleArticle ''a'' ''Forest fire spreads'' 5 None,
                      sampleArticle ''b'' ''Markets rally'' 6 None]) \<and>
   distinct (map id' (fst (getCachedArticles
                            (cachedWorld 0 [sampleArticle ''a'' ''Forest fire spreads'' 5 None])))) \<and>
   distinct (map id' [sampleArticle ''b'' ''Markets rally'' 6 None,
                      sampleArticle ''a'' ''Forest fire spreads'' 5 None]) \<and>
   id' (sampleArticle ''a'' ''Forest fire spreads'' 5 None)
     \<in> set (map id' (fst (getCachedArticles
                (cachedWorld 0 [sampleArticle ''a'' ''Forest fire spreads'' 5 None])))) \<and>
   writes (snd (addArticles [sampleArticle ''a'' ''Forest fire spreads'' 5 None]
                  (cachedWorld 0 [sampleArticle ''a'' ''Forest fire spreads'' 5 None])))
     = writes (cachedWorld 0 [sampleArticle ''a'' ''Forest fire spreads'' 5 None])"
proof -
  let ?a = "sampleArticle ''a'' ''Forest fire spreads'' 5 None"
  let ?b = "sampleArticle ''b'' ''Markets rally'' 6 None"
  let ?w = "cachedWorld 0 [?a]"
  have wr: "unwritable ?w = {}"
    by (simp add: cachedWorld_def emptyWorld_def)
  have new: "uniqueNew [?a, ?b] ?w = [?b]"
    by (simp add: uniqueNew_def cached_cachedWorld sampleArticle_def)
  have first: "fst (addArticles [?a, ?b] ?w) = Inr [?b, ?a]"
    by (simp add: addArticles_result new wr cached_cachedWorld)
       (simp add: sortByDate_def sampleArticle_def)
  have fits: "length (uniqueNew [?a, ?b] ?w @ fst (getCachedArticles ?w)) \<le> 1000"
    by (simp add: new cached_cachedWorld)
  have "files (snd (addArticles [?a, ?b] ?w)) ''articles.json''
      = Some \<lparr>mtime = 0, content' = Json \<lparr>feeds = None, articles = [?b, ?a], lastUpdated = 0,
                                         version = CACHE_VERSION\<rparr>\<rparr>"
    using new wr
    by (simp add: addArticles_eq uniqueNew_def Let_def cached_cachedWorld)
       (simp add: cachedWorld_def emptyWorld_def sortByDate_def sampleArticle_def)
  then have later: "fst (getCachedArticles ((snd (addArticles [?a, ?b] ?w))\<lparr>clock := 60000\<rparr>))
      = [?b, ?a]"
    by (simp add: fst_getCachedArticles CACHE_EXPIRY_MS_def)
  have d1: "distinct (map id' [?a, ?b])"
    by (simp add: sampleArticle_def)
  have d2: "distinct (map id' (fst (getCachedArticles ?w)))"
    by (simp add: cached_cachedWorld)
  have known1: "id' ?a \<in> set (map id' (fst (getCachedArticles ?w)))"
    by (simp add: cached_cachedWorld)
  then have known: "\<forall>x\<in>set [?a]. id' x \<in> set (map id' (fst (getCachedArticles ?w)))"
    by simp
  note t = addArticles_idempotent[of "[?a, ?b]" ?w "[?b, ?a]" 60000, THEN conjunct1, THEN mp,
      OF conjI[OF first conjI[OF fits later]]]
  note t1 = t[THEN conjunct1]
  note t2 = t[THEN conjunct2, THEN conjunct1]
  note t3 = t[THEN conjunct2, THEN conjunct2, THEN conjunct1]
  note t5 = t[THEN conjunct2, THEN conjunct2, THEN conjunct2, THEN conjunct2, THEN mp,
      OF conjI[OF d1 d2]]
  note u = addArticles_idempotent[of "[?a]" ?w "[?a]" 0, THEN conjunct2, THEN mp, OF known]
  note u2 = u[THEN conjunct2, THEN conjunct1]
  show ?thesis
    by (intro conjI; (rule first | rule fits | rule later | rule t1 | rule t2 | rule t3
          | rule d1 | rule d2 | rule t5 | rule known1 | rule u2))
qed

section \<open>Featured articles\<close>

lemma getArticles_cached:
  assumes "fst (getCachedArticles w) \<noteq> []"
  shows "fst (getArticles w) = fst (getCachedArticles w)"
  using assms by (simp add: getArticles_def case_prod_beta)

lemma getFeaturedArticles_fst:
  "fst (getFeaturedArticles w) =
     (let as = take 20 (sortByDate (fst (getArticles w)))
      in if filter hasImage as = [] then take 15 (filter (\<lambda>a. \<not> hasImage a) as)
         else take 12 (filter hasImage as)
              @ take (15 - length (take 12 (filter hasImage as))) (filter (\<lambda>a. \<not> hasImage a) as))"
proof -
  have "nat (max 0 (15 - int n)) = 15 - n" for n :: nat
    by simp
  then show ?thesis
    by (simp add: getFeaturedArticles_def getLatestArticles_def case_prod_beta Let_def)
qed

lemma hd_filter: "filter P xs \<noteq> [] \<Longrightarrow> P (hd (filter P xs))"
proof -
  assume "filter P xs \<noteq> []"
  then have "hd (filter P xs) \<in> set (filter P xs)"
    by (rule hd_in_set)
  then show ?thesis
    by simp
qed

lemma sortByDate_sorted: "sorted (map (\<lambda>a. - pubDate a) as) \<Longrightarrow> sortByDate as = as"
  unfolding sortByDate_def by (rule sort_key_id_if_sorted)

text \<open>
  Claim C3, as stated, fails: \<open>getFeaturedArticles\<close> looks at the 20 most recent articles
  only. With 20 recent articles without an image and one older article with an image in the
  cache, the first featured article has no image.
\<close>

theorem getFeaturedArticles_old_image_counterexample:
  "hasImage (sampleArticle ''p'' ''Parade photos'' 1 (Some ''https://example.org/p.jpg'')) \<and>
   sampleArticle ''p'' ''Parade photos'' 1 (Some ''https://example.org/p.jpg'')
     \<in> set (fst (getCachedArticles (cachedWorld 0
          (map (numbered 9) [0..<20]
           @ [sampleArticle ''p'' ''Parade photos'' 1 (Some ''https://example.org/p.jpg'')])))) \<and>
   fst (getFeaturedArticles (cachedWorld 0
          (map (numbered 9) [0..<20]
           @ [sampleArticle ''p'' ''Parade photos'' 1 (Some ''https://example.org/p.jpg'')])))
     = map (numbered 9) [0..<15] \<and>
   \<not> hasImage (hd (map (numbered 9) [0..<15]))"
proof -
  let ?p = "sampleArticle ''p'' ''Parade photos'' 1 (Some ''https://example.org/p.jpg'')"
  let ?xs = "map (numbered 9) [0..<20]"
  let ?w = "cachedWorld 0 (?xs @ [?p])"
  have p: "hasImage ?p"
    by (simp add: hasImage_def sampleArticle_def)
  have noimg: "\<not> hasImage (numbered 9 k)" for k
    by (simp add: hasImage_def numbered_def sampleArticle_def)
  have c: "fst (getCachedArticles ?w) = ?xs @ [?p]"
    by (rule cached_cachedWorld)
  have "sorted (map (\<lambda>a. - pubDate a) (?xs @ [?p]))"
    by (simp add: sorted_append pubDate_numbered sampleArticle_def sorted_same_key[of _ _ "-9"] comp_def)
  then have s: "sortByDate (?xs @ [?p]) = ?xs @ [?p]"
    by (rule sortByDate_sorted)
  have t: "take 20 (?xs @ [?p]) = ?xs"
    by simp
  have f1: "filter hasImage ?xs = []"
    by (simp add: filter_empty_conv noimg)
  have f2: "filter (\<lambda>a. \<not> hasImage a) ?xs = ?xs"
    by (simp add: noimg)
  have ga: "fst (getArticles ?w) = ?xs @ [?p]"
    using getArticles_cached[of ?w] c by simp
  have r: "fst (getFeaturedArticles ?w) = take 15 ?xs"
    unfolding getFeaturedArticles_fst ga s t Let_def f1 f2 by simp
  have "take 15 ?xs = map (numbered 9) [0..<15]"
    by (simp add: take_map)
  with r p c noimg show ?thesis
    by (simp add: hd_map)
qed

text \<open>
  Claim C3, amended: whenever at least one of the 20 most recent cached articles has an
  image (defined and not empty, as the truthiness test reads it), the list returned by
  \<open>getFeaturedArticles\<close> is not empty and its first element has an image.
\<close>

theorem getFeaturedArticles_first_has_image:
  "(\<exists>a\<in>set (take 20 (sortByDate (fst (getCachedArticles w)))). hasImage a) \<longrightarrow>
     fst (getFeaturedArticles w) \<noteq> [] \<and> hasImage (hd (fst (getFeaturedArticles w)))"
proof
  assume ex: "\<exists>a\<in>set (take 20 (sortByDate (fst (getCachedArticles w)))). hasImage a"
  then have "fst (getCachedArticles w) \<noteq> []"
    by (auto simp: sortByDate_def)
  then have ga: "fst (getArticles w) = fst (getCachedArticles w)"
    by (rule getArticles_cached)
  let ?img = "filter hasImage (take 20 (sortByDate (fst (getCachedArticles w))))"
  from ex have ne: "?img \<noteq> []"
    by (auto simp: filter_empty_conv)
  then have "hd (take 12 ?img) = hd ?img" "take 12 ?img \<noteq> []"
    by (cases ?img; simp)+
  with ne hd_filter[OF ne] show
    "fst (getFeaturedArticles w) \<noteq> [] \<and> hasImage (hd (fst (getFeaturedArticles w)))"
    by (simp add: getFeaturedArticles_fst ga Let_def)
qed

theorem getFeaturedArticles_first_has_image_witness:
  "(\<exists>a\<in>set (take 20 (sortByDate (fst (getCachedArticles
        (cachedWorld 0 [sampleArticle ''a'' ''Forest fire spreads'' 9 None,
                        sampleArticle ''p'' ''Parade photos'' 5 (Some ''https://example.org/p.jpg'')]))))).
      hasImage a) \<and>
   fst (getFeaturedArticles
         (cachedWorld 0 [sampleArticle ''a'' ''Forest fire spreads'' 9 None,
                         sampleArticle ''p'' ''Parade photos'' 5 (Some ''https://example.org/p.jpg'')]))
     \<noteq> [] \<and>
   hasImage (hd (fst (getFeaturedArticles
         (cachedWorld 0 [sampleArticle ''a'' ''Forest fire spreads'' 9 None,
                         sampleArticle ''p'' ''Parade photos'' 5 (Some ''https://example.org/p.jpg'')]))))"
proof -
  let ?w = "cachedWorld 0 [sampleArticle ''a'' ''Forest fire spreads'' 9 None,
                           sampleArticle ''p'' ''Parade photos'' 5 (Some ''https://example.org/p.jpg'')]"
  have pictured: "\<exists>a\<in>set (take 20 (sortByDate (fst (getCachedArticles ?w)))). hasImage a"
    by (simp add: cached_cachedWorld sortByDate_def sampleArticle_def hasImage_def)
  note t = getFeaturedArticles_first_has_image[of ?w, THEN mp, OF pictured]
  show ?thesis
    by (intro conjI; (rule pictured | rule t[THEN conjunct1] | rule t[THEN conjunct2]))
qed

section \<open>Search\<close>

lemma dropWhile_all: "(\<forall>x\<in>set (dropWhile P q). P x) \<longleftrightarrow> (\<forall>x\<in>set q. P x)"
  by (induction q) auto

lemma trim_empty_iff: "trim q = [] \<longleftrightarrow> (\<forall>c\<in>set q. isSpace c)"
  unfolding trim_def trimEnd_def
  by (simp add: dropWhile_eq_Nil_conv dropWhile_all)

lemma includesStr_iff_sublist: "includesStr s sub \<longleftrightarrow> sublist sub s"
  by (induction s) (auto simp: sublist_Cons_right)

lemma searchArticles_blank:
  "\<forall>c\<in>set query. isSpace c \<Longrightarrow> searchArticles query w = ([], w)"
  by (simp add: searchArticles_def trim_empty_iff)

text \<open>
  Claim C10. A query that is empty or all whitespace gives the empty list and leaves the
  world as it was, read counter included, so the cache is not consulted; the whitespace is
  that of JavaScript, as the query made of all its 25 code units shows. Any other query is
  matched with the whitespace at its two ends dropped: the answer is the cached articles one
  of whose title, description, content or tags, once lowercased by the runtime, contains the
  lowercased trimmed query, and the world is left as reading the cached articles leaves it.
\<close>

theorem searchArticles_blank_or_trimmed:
  "((\<forall>c\<in>set query. isSpace c) \<longrightarrow> searchArticles query w = ([], w)) \<and>
   (\<not> (\<forall>c\<in>set query. isSpace c) \<longrightarrow>
      fst (searchArticles query w) =
        filter (\<lambda>a. \<exists>field \<in> set ([title a, description a, content a] @ tags a).
                      sublist (toLowerCase (builtins w)
                                 (rev (dropWhile isSpace (rev (dropWhile isSpace query)))))
                              (toLowerCase (builtins w) field))
               (fst (getCachedArticles w)) \<and>
      snd (searchArticles query w) = snd (getCachedArticles w)) \<and>
   searchArticles
     [0x0009, 0x000A, 0x000B, 0x000C, 0x000D, 0x0020, 0x00A0, 0x1680, 0x2000, 0x2001, 0x2002,
      0x2003, 0x2004, 0x2005, 0x2006, 0x2007, 0x2008, 0x2009, 0x200A, 0x2028, 0x2029, 0x202F,
      0x205F, 0x3000, 0xFEFF] w = ([], w)"
proof (intro conjI impI)
  assume "\<forall>c\<in>set query. isSpace c"
  then show "searchArticles query w = ([], w)"
    by (rule searchArticles_blank)
next
  assume "\<not> (\<forall>c\<in>set query. isSpace c)"
  then have "searchArticles query w
      = searchCachedArticles (rev (dropWhile isSpace (rev (dropWhile isSpace query)))) w"
    by (auto simp: searchArticles_def trim_empty_iff) (simp_all add: trim_def trimEnd_def)
  then show "fst (searchArticles query w) =
        filter (\<lambda>a. \<exists>field \<in> set ([title a, description a, content a] @ tags a).
                      sublist (toLowerCase (builtins w)
                                 (rev (dropWhile isSpace (rev (dropWhile isSpace query)))))
                              (toLowerCase (builtins w) field))
               (fst (getCachedArticles w))"
    and "snd (searchArticles query w) = snd (getCachedArticles w)"
    by (auto simp: searchCachedArticles_def includesStr_iff_sublist list_ex_iff Let_def
        split: prod.splits intro!: filter_cong)
next
  show "searchArticles
     [0x0009, 0x000A, 0x000B, 0x000C, 0x000D, 0x0020, 0x00A0, 0x1680, 0x2000, 0x2001, 0x2002,
      0x2003, 0x2004, 0x2005, 0x2006, 0x2007, 0x2008, 0x2009, 0x200A, 0x2028, 0x2029, 0x202F,
      0x205F, 0x3000, 0xFEFF] w = ([], w)"
    by (rule searchArticles_blank) (simp add: isSpace_def)
qed

text \<open>
  On the reference runtime: the query of a no-break space and a space finds nothing and
  reads nothing; the query \<open>caf\<close>, \<open>U+00E9\<close> between an ideographic space and a
  no-break space finds the article titled \<open>CAF\<close>, \<open>U+00C9\<close>, \<open> opens\<close>.
\<close>

theorem searchArticles_blank_or_trimmed_witness:
  "searchArticles [0x00A0, 0x0020]
     (cachedWorld 0 [sampleArticle ''a'' (''CAF'' @ [CHR 0xC9] @ '' opens'') 5 None])
     = ([], cachedWorld 0 [sampleArticle ''a'' (''CAF'' @ [CHR 0xC9] @ '' opens'') 5 None]) \<and>
   \<not> (\<forall>c\<in>set [0x3000, 0x63, 0x61, 0x66, 0x00E9, 0x00A0]. isSpace c) \<and>
   [sampleArticle ''a'' (''CAF'' @ [CHR 0xC9] @ '' opens'') 5 None] =
     filter (\<lambda>a. \<exists>field \<in> set ([title a, description a, content a] @ tags a).
                   sublist (latin1ToLowerCase
                              (rev (dropWhile isSpace (rev (dropWhile isSpace
                                 [0x3000, 0x63, 0x61, 0x66, 0x00E9, 0x00A0])))))
                           (latin1ToLowerCase field))
            (fst (getCachedArticles
                   (cachedWorld 0 [sampleArticle ''a'' (''CAF'' @ [CHR 0xC9] @ '' opens'') 5 None,
                                   sampleArticle ''b'' ''Markets rally'' 4 None])))"
proof -
  let ?a = "sampleArticle ''a'' (''CAF'' @ [CHR 0xC9] @ '' opens'') 5 None"
  let ?b = "sampleArticle ''b'' ''Markets rally'' 4 None"
  let ?w = "cachedWorld 0 [?a, ?b]"
  let ?q = "[0x3000, 0x63, 0x61, 0x66, 0x00E9, 0x00A0] :: ustring"
  have blank: "\<forall>c\<in>set [0x00A0, 0x0020]. isSpace c"
    by (simp add: isSpace_def)
  have nonblank: "\<not> (\<forall>c\<in>set ?q. isSpace c)"
    by (simp add: isSpace_def)
  have guard: "(?q = [] \<or> length (trim ?q) = 0) = False"
    by code_simp
  have rt: "toLowerCase (builtins ?w) = latin1ToLowerCase"
    by (simp add: cachedWorld_def emptyWorld_def referenceBuiltins_def)
  have sel: "filter (\<lambda>a. includesStr (latin1ToLowerCase (title a)) (latin1ToLowerCase (trim ?q))
                         \<or> includesStr (latin1ToLowerCase (description a)) (latin1ToLowerCase (trim ?q))
                         \<or> includesStr (latin1ToLowerCase (content a)) (latin1ToLowerCase (trim ?q))
                         \<or> list_ex (\<lambda>tag. includesStr (latin1ToLowerCase tag)
                                              (latin1ToLowerCase (trim ?q))) (tags a))
                 [?a, ?b] = [?a]"
    by code_simp
  have found: "fst (searchArticles ?q ?w) = [?a]"
    by (simp only: searchArticles_def guard if_False searchCachedArticles_def case_prod_beta Let_def
        fst_conv rt cached_cachedWorld sel)
  note t1 = searchArticles_blank_or_trimmed[of "[0x00A0, 0x0020]" "cachedWorld 0 [?a]",
      THEN conjunct1, THEN mp, OF blank]
  note t2 = searchArticles_blank_or_trimmed[of ?q ?w,
      THEN conjunct2, THEN conjunct1, THEN mp, OF nonblank, THEN conjunct1, unfolded rt]
  show ?thesis
    by (intro conjI; (rule t1 | rule nonblank | rule trans[OF found[symmetric] t2]))
qed

section \<open>Slug derivation\<close>

lemma replaceRuns_Cons:
  "replaceRuns P r (c # cs) =
     (if P c then (if cs \<noteq> [] \<and> P (hd cs) then replaceRuns P r cs else r @ replaceRuns P r cs)
      else c # replaceRuns P r cs)"
  by (cases cs) simp_all

lemma replaceRuns_empty: "replaceRuns P [] s = filter (\<lambda>c. \<not> P c) s"
  by (induction s) (simp_all add: replaceRuns_Cons del: replaceRuns.simps(2,3))

lemma replaceLongRuns_hyphen:
  "replaceLongRuns isHyphen [0x2D] s = replaceRuns isHyphen [0x2D] s"
  by (induction isHyphen "[0x2D::code_unit]" s rule: replaceLongRuns.induct)
     (auto simp: isHyphen_def split: list.splits)

lemma replaceRuns_all:
  "\<forall>c\<in>set w. P c \<Longrightarrow> replaceRuns P r w = (if w = [] then [] else r)"
  by (induction w) (auto simp: replaceRuns_Cons simp del: replaceRuns.simps(2,3))

lemma replaceRuns_lead:
  assumes "\<forall>c\<in>set w. P c"
  shows "\<exists>p. (p = [] \<or> p = r) \<and> replaceRuns P r (w @ z) = p @ replaceRuns P r z"
  using assms
proof (induction w)
  case Nil
  then show ?case by simp
next
  case (Cons c w)
  then obtain p where p: "p = [] \<or> p = r" "replaceRuns P r (w @ z) = p @ replaceRuns P r z"
    by auto
  from Cons.prems have c: "P c" by simp
  show ?case
  proof (cases "w @ z \<noteq> [] \<and> P (hd (w @ z))")
    case True
    with c p show ?thesis
      by (auto simp: replaceRuns_Cons simp del: replaceRuns.simps(2,3))
  next
    case False
    have "w = []"
    proof (rule ccontr)
      assume "w \<noteq> []"
      then have "hd (w @ z) \<in> set w" by simp
      with Cons.prems False \<open>w \<noteq> []\<close> show False by auto
    qed
    with c False show ?thesis
      by (auto simp: replaceRuns_Cons simp del: replaceRuns.simps(2,3))
  qed
qed

lemma replaceRuns_trail:
  assumes "\<forall>c\<in>set w. P c"
  shows "\<exists>q. (q = [] \<or> q = r) \<and> replaceRuns P r (z @ w) = replaceRuns P r z @ q"
proof (induction z)
  case Nil
  show ?case
    using replaceRuns_all[OF assms, of r] by auto
next
  case (Cons c z)
  then obtain q where q: "q = [] \<or> q = r" "replaceRuns P r (z @ w) = replaceRuns P r z @ q"
    by auto
  show ?case
  proof (cases "z = []")
    case True
    show ?thesis
    proof (cases "w = []")
      case True
      with \<open>z = []\<close> show ?thesis by simp
    next
      case False
      then have "P (hd w)" using assms by simp
      with False True replaceRuns_all[OF assms, of r] show ?thesis
        by (auto simp: replaceRuns_Cons simp del: replaceRuns.simps(2,3))
    qed
  next
    case False
    then have "hd (z @ w) = hd z" "z @ w \<noteq> []" by simp_all
    with q False show ?thesis
      by (auto simp: replaceRuns_Cons simp del: replaceRuns.simps(2,3))
  qed
qed

lemma trimEnd_decompose: "\<exists>w. (\<forall>c\<in>set w. P c) \<and> s = trimEnd P s @ w"
proof -
  have "rev s = takeWhile P (rev s) @ dropWhile P (rev s)"
    by simp
  then have "s = rev (dropWhile P (rev s)) @ rev (takeWhile P (rev s))"
    by (metis rev_append rev_rev_ident)
  moreover have "\<forall>c\<in>set (rev (takeWhile P (rev s))). P c"
    by (auto dest: set_takeWhileD)
  ultimately show ?thesis
    unfolding trimEnd_def by blast
qed

lemma trim_decompose:
  "\<exists>w1 w2. (\<forall>c\<in>set w1. isSpace c) \<and> (\<forall>c\<in>set w2. isSpace c) \<and> s = w1 @ trim s @ w2"
proof -
  obtain w2 where w2: "\<forall>c\<in>set w2. isSpace c" "dropWhile isSpace s = trim s @ w2"
    using trimEnd_decompose[of isSpace "dropWhile isSpace s"] unfolding trim_def by blast
  have "s = takeWhile isSpace s @ dropWhile isSpace s"
    by simp
  with w2 have "s = takeWhile isSpace s @ trim s @ w2"
    by simp
  moreover have "\<forall>c\<in>set (takeWhile isSpace s). isSpace c"
    by (auto dest: set_takeWhileD)
  ultimately show ?thesis
    using w2(1) by blast
qed

lemma trimEnd_append_all: "\<forall>c\<in>set q. P c \<Longrightarrow> trimEnd P (u @ q) = trimEnd P u"
proof -
  assume "\<forall>c\<in>set q. P c"
  then have "dropWhile P (rev q @ rev u) = dropWhile P (rev u)"
    by (intro dropWhile_append2) simp
  then show ?thesis
    by (simp add: trimEnd_def)
qed

lemma stripHyphens_pad:
  assumes "\<forall>c\<in>set p. isHyphen c" "\<forall>c\<in>set q. isHyphen c"
  shows "trimEnd isHyphen (dropWhile isHyphen (p @ v @ q)) = trimEnd isHyphen (dropWhile isHyphen v)"
proof -
  have lead: "dropWhile isHyphen (p @ v @ q) = dropWhile isHyphen (v @ q)"
    using assms(1) by (simp add: dropWhile_append2)
  show ?thesis
  proof (cases "\<forall>c\<in>set v. isHyphen c")
    case True
    with assms(2) have "\<forall>c\<in>set (v @ q). isHyphen c"
      by auto
    then have a: "dropWhile isHyphen (v @ q) = []"
      by (simp only: dropWhile_eq_Nil_conv)
    from True have b: "dropWhile isHyphen v = []"
      by (simp only: dropWhile_eq_Nil_conv)
    show ?thesis
      by (simp only: lead a b)
  next
    case False
    then have "dropWhile isHyphen (v @ q) = dropWhile isHyphen v @ q"
      by (auto simp: dropWhile_append1)
    with lead show ?thesis
      by (simp only: trimEnd_append_all[OF assms(2)])
  qed
qed

text \<open>The \<open>trim()\<close> of the code changes nothing: the whitespace it removes would end as
  hyphens at the two ends, which are stripped anyway.\<close>

lemma slugify_core:
  "trimEnd isHyphen (dropWhile isHyphen
     (replaceRuns isHyphen [0x2D]
       (filter (\<lambda>c. isWordChar c \<or> c = 0x2D)
         (replaceRuns (\<lambda>c. isSpace c \<or> c = 0x5F) [0x2D] (trim x)))))
   = trimEnd isHyphen (dropWhile isHyphen
     (replaceRuns isHyphen [0x2D]
       (filter (\<lambda>c. isWordChar c \<or> c = 0x2D)
         (replaceRuns (\<lambda>c. isSpace c \<or> c = 0x5F) [0x2D] x))))"
proof -
  let ?Q = "\<lambda>c. isSpace c \<or> c = (0x5F::code_unit)"
  let ?keep = "\<lambda>c. isWordChar c \<or> c = (0x2D::code_unit)"
  let ?h = "[0x2D::code_unit]"
  obtain w1 w2 where w: "\<forall>c\<in>set w1. isSpace c" "\<forall>c\<in>set w2. isSpace c" "x = w1 @ trim x @ w2"
    using trim_decompose[of x] by blast
  from w(1) have q1: "\<forall>c\<in>set w1. ?Q c" by simp
  from w(2) have q2: "\<forall>c\<in>set w2. ?Q c" by simp
  obtain p where p: "p = [] \<or> p = ?h"
      "replaceRuns ?Q ?h (w1 @ trim x @ w2) = p @ replaceRuns ?Q ?h (trim x @ w2)"
    using replaceRuns_lead[OF q1, of ?h "trim x @ w2"] by blast
  obtain q where q: "q = [] \<or> q = ?h"
      "replaceRuns ?Q ?h (trim x @ w2) = replaceRuns ?Q ?h (trim x) @ q"
    using replaceRuns_trail[OF q2, of ?h "trim x"] by blast
  let ?u = "filter ?keep (replaceRuns ?Q ?h (trim x))"
  have hp: "\<forall>c\<in>set p. isHyphen c" and hq: "\<forall>c\<in>set q. isHyphen c"
    using p(1) q(1) by (auto simp: isHyphen_def)
  have "replaceRuns ?Q ?h x = p @ replaceRuns ?Q ?h (trim x) @ q"
    using w(3) p(2) q(2) by simp
  then have f: "filter ?keep (replaceRuns ?Q ?h x) = p @ ?u @ q"
    using p(1) q(1) by auto
  obtain p' where p': "p' = [] \<or> p' = ?h"
      "replaceRuns isHyphen ?h (p @ ?u @ q) = p' @ replaceRuns isHyphen ?h (?u @ q)"
    using replaceRuns_lead[OF hp, of ?h "?u @ q"] by blast
  obtain q' where q': "q' = [] \<or> q' = ?h"
      "replaceRuns isHyphen ?h (?u @ q) = replaceRuns isHyphen ?h ?u @ q'"
    using replaceRuns_trail[OF hq, of ?h ?u] by blast
  have hp': "\<forall>c\<in>set p'. isHyphen c" and hq': "\<forall>c\<in>set q'. isHyphen c"
    using p'(1) q'(1) by (auto simp: isHyphen_def)
  have "replaceRuns isHyphen ?h (filter ?keep (replaceRuns ?Q ?h x))
      = p' @ replaceRuns isHyphen ?h ?u @ q'"
    by (simp only: f p'(2) q'(2))
  then show ?thesis
    by (simp only: stripHyphens_pad[OF hp' hq'])
qed

text \<open>The runs as the code replaces them and as the specification collapses them.\<close>

lemma collapseRuns_run:
  "P d \<Longrightarrow> collapseRuns P (d # ds) = 0x2D # collapseRuns P (dropWhile P ds)"
  by simp

lemma replaceRuns_collapseRuns: "replaceRuns P [0x2D] s = collapseRuns P s"
proof (induction s)
  case Nil
  show ?case by simp
next
  case (Cons c cs)
  show ?case
  proof (cases "P c")
    case False
    with Cons.IH show ?thesis
      by (simp add: replaceRuns_Cons del: replaceRuns.simps(2,3))
  next
    case True
    show ?thesis
    proof (cases "cs \<noteq> [] \<and> P (hd cs)")
      case run: True
      then obtain d ds where cs: "cs = d # ds" and d: "P d"
        by (cases cs) auto
      have "replaceRuns P [0x2D] (c # cs) = replaceRuns P [0x2D] cs"
        using True run by (simp add: replaceRuns_Cons del: replaceRuns.simps(2,3))
      also have "\<dots> = collapseRuns P cs"
        by (rule Cons.IH)
      also have "\<dots> = 0x2D # collapseRuns P (dropWhile P ds)"
        unfolding cs by (rule collapseRuns_run[of P d ds, OF d])
      also have "\<dots> = collapseRuns P (c # cs)"
        using True d by (simp add: cs)
      finally show ?thesis .
    next
      case single: False
      then have "dropWhile P cs = cs"
        by (cases cs) auto
      with True single Cons.IH show ?thesis
        by (simp add: replaceRuns_Cons del: replaceRuns.simps(2,3))
    qed
  qed
qed

lemma slugify_eq_specSlugify:
  "lower [] = [] \<Longrightarrow> slugify lower text = specSlugify lower text"
proof (cases "text = []")
  case True
  assume "lower [] = []"
  with True show ?thesis
    by (simp add: slugify_def specSlugify_def)
next
  case False
  have h: "isHyphen = (\<lambda>c. c = 0x2D)"
    by (simp add: isHyphen_def fun_eq_iff)
  have "slugify lower text =
      trimEnd isHyphen (take 100 (trimEnd isHyphen (dropWhile isHyphen
        (replaceRuns isHyphen [0x2D]
          (filter (\<lambda>c. isWordChar c \<or> c = 0x2D)
            (replaceRuns (\<lambda>c. isSpace c \<or> c = 0x5F) [0x2D] (lower text)))))))"
    using False
    by (simp add: slugify_def Let_def lit_def replaceRuns_empty replaceLongRuns_hyphen
        slugify_core)
  also have "\<dots> = specSlugify lower text"
    unfolding specSlugify_def Let_def replaceRuns_collapseRuns trimEnd_def h
    by simp
  finally show ?thesis .
qed

lemma slugify_lowered:
  "text \<noteq> [] \<Longrightarrow> lower text = l \<Longrightarrow> slugify lower text = slugify (\<lambda>s. l) text"
  by (simp add: slugify_def)

lemma replaceFirst_absent:
  "pat \<noteq> [] \<Longrightarrow> hd pat \<notin> set s \<Longrightarrow> replaceFirst pat rep s = s"
proof (induction s)
  case Nil
  then show ?case by simp
next
  case (Cons c cs)
  from Cons.prems have "\<not> prefix pat (c # cs)"
    by (cases pat) auto
  with Cons show ?case by simp
qed

lemma normalizedDate_iso:
  "0x20 \<notin> set s \<Longrightarrow>
     replaceFirst (lit '' GMT'') (lit '' +0000'') (replaceFirst (lit '' BST'') (lit '' +0100'') s) = s"
  by (simp add: replaceFirst_absent lit_def)

lemma isoParse_example: "isoParse (lit ''2024-01-05T10:00:00Z'') = Some 1704448800000"
  by code_simp

lemma isoFormat_example: "isoFormat 1704448800000 = ''2024-01-05T10:00:00.000Z''"
  by code_simp

text \<open>
  Claim C7. For every title and every date string without a space (as ISO dates are) that
  the runtime parses, the slug is the ISO rendering of the date up to its \<open>T\<close>, a hyphen,
  and the title slugified as the specification words it (on every runtime, the empty string
  lowercased is the empty string). On a runtime that lowercases
  \<open>Breaking: Market Crashes!\<close> to \<open>breaking: market crashes!\<close>, parses
  \<open>2024-01-05T10:00:00Z\<close> and renders it as \<open>2024-01-05T10:00:00.000Z\<close>, the slug of that
  title at that date is \<open>2024-01-05-breaking-market-crashes\<close>. On the reference runtime,
  \<open>a - b\<close> and \<open>a\<close>, no-break space, \<open>b\<close> both give \<open>a-b\<close>;
  \<open>  __Top 10:   Hello_World!__  \<close> gives \<open>top-10-hello-world\<close>; 99 times \<open>a\<close> followed
  by \<open> b\<close> gives the 99 \<open>a\<close> alone, the hyphen left at the cap being removed; and 101
  times \<open>a\<close> gives 100.
\<close>

theorem generateArticleSlug_date_and_title:
  "(0x20 \<notin> set pubDate' \<and> parseDate B pubDate' = Some t \<and> toLowerCase B [] = [] \<longrightarrow>
      generateArticleSlug B now title' pubDate'
        = takeWhile (\<lambda>c. c \<noteq> 0x54) (toISOString B t) @ [0x2D] @ specSlugify (toLowerCase B) title') \<and>
   (toLowerCase B (lit ''Breaking: Market Crashes!'') = lit ''breaking: market crashes!'' \<and>
    parseDate B (lit ''2024-01-05T10:00:00Z'') = Some t0 \<and>
    toISOString B t0 = lit ''2024-01-05T10:00:00.000Z'' \<longrightarrow>
      generateArticleSlug B now (lit ''Breaking: Market Crashes!'') (lit ''2024-01-05T10:00:00Z'')
        = lit ''2024-01-05-breaking-market-crashes'') \<and>
   slugify latin1ToLowerCase (lit ''a - b'') = lit ''a-b'' \<and>
   slugify latin1ToLowerCase [0x61, 0x00A0, 0x62] = lit ''a-b'' \<and>
   slugify latin1ToLowerCase (lit ''  __Top 10:   Hello_World!__  '') = lit ''top-10-hello-world'' \<and>
   slugify latin1ToLowerCase (replicate 99 0x61 @ lit '' b'') = replicate 99 0x61 \<and>
   slugify latin1ToLowerCase (replicate 101 0x61) = replicate 100 0x61"
proof (intro conjI impI)
  assume a: "0x20 \<notin> set pubDate' \<and> parseDate B pubDate' = Some t \<and> toLowerCase B [] = []"
  then have "replaceFirst (lit '' GMT'') (lit '' +0000'')
      (replaceFirst (lit '' BST'') (lit '' +0100'') pubDate') = pubDate'"
    by (simp add: normalizedDate_iso)
  with a show "generateArticleSlug B now title' pubDate'
      = takeWhile (\<lambda>c. c \<noteq> 0x54) (toISOString B t) @ [0x2D] @ specSlugify (toLowerCase B) title'"
    by (simp add: generateArticleSlug_def slugify_eq_specSlugify) (simp add: lit_def)
next
  assume a: "toLowerCase B (lit ''Breaking: Market Crashes!'') = lit ''breaking: market crashes!'' \<and>
    parseDate B (lit ''2024-01-05T10:00:00Z'') = Some t0 \<and>
    toISOString B t0 = lit ''2024-01-05T10:00:00.000Z''"
  have n: "replaceFirst (lit '' GMT'') (lit '' +0000'')
             (replaceFirst (lit '' BST'') (lit '' +0100'') (lit ''2024-01-05T10:00:00Z''))
      = lit ''2024-01-05T10:00:00Z''"
    by (rule normalizedDate_iso) (simp add: lit_def)
  have s: "slugify (\<lambda>s. lit ''breaking: market crashes!'') (lit ''Breaking: Market Crashes!'')
      = lit ''breaking-market-crashes''"
    by code_simp
  have d: "takeWhile (\<lambda>c. c \<noteq> of_char CHR ''T'') (lit ''2024-01-05T10:00:00.000Z'') = lit ''2024-01-05''"
    by code_simp
  have j: "lit ''2024-01-05'' @ lit ''-'' @ lit ''breaking-market-crashes''
      = lit ''2024-01-05-breaking-market-crashes''"
    by (simp add: lit_def)
  have ne: "lit ''Breaking: Market Crashes!'' \<noteq> []"
    by (simp add: lit_def)
  have "slugify (toLowerCase B) (lit ''Breaking: Market Crashes!'') = lit ''breaking-market-crashes''"
    using slugify_lowered[of "lit ''Breaking: Market Crashes!''" "toLowerCase B"
        "lit ''breaking: market crashes!''", OF ne a[THEN conjunct1]] s
    by simp
  then show "generateArticleSlug B now (lit ''Breaking: Market Crashes!'') (lit ''2024-01-05T10:00:00Z'')
      = lit ''2024-01-05-breaking-market-crashes''"
    using a unfolding generateArticleSlug_def Let_def n by (simp only: option.case d j)
next
  show "slugify latin1ToLowerCase (lit ''a - b'') = lit ''a-b''"
    by code_simp
next
  show "slugify latin1ToLowerCase [0x61, 0x00A0, 0x62] = lit ''a-b''"
    by code_simp
next
  show "slugify latin1ToLowerCase (lit ''  __Top 10:   Hello_World!__  '') = lit ''top-10-hello-world''"
    by code_simp
next
  show "slugify latin1ToLowerCase (replicate 99 0x61 @ lit '' b'') = replicate 99 0x61"
    by code_simp
next
  show "slugify latin1ToLowerCase (replicate 101 0x61) = replicate 100 0x61"
    by code_simp
qed

theorem generateArticleSlug_date_and_title_witness:
  "0x20 \<notin> set (lit ''2024-01-05T10:00:00Z'') \<and>
   toLowerCase referenceBuiltins [] = [] \<and>
   toLowerCase referenceBuiltins (lit ''Breaking: Market Crashes!'') = lit ''breaking: market crashes!'' \<and>
   parseDate referenceBuiltins (lit ''2024-01-05T10:00:00Z'') = Some 1704448800000 \<and>
   toISOString referenceBuiltins 1704448800000 = lit ''2024-01-05T10:00:00.000Z'' \<and>
   generateArticleSlug referenceBuiltins 0 (lit ''Breaking: Market Crashes!'') (lit ''2024-01-05T10:00:00Z'')
     = takeWhile (\<lambda>c. c \<noteq> 0x54) (toISOString referenceBuiltins 1704448800000) @ [0x2D]
       @ specSlugify (toLowerCase referenceBuiltins) (lit ''Breaking: Market Crashes!'') \<and>
   generateArticleSlug referenceBuiltins 0 (lit ''Breaking: Market Crashes!'') (lit ''2024-01-05T10:00:00Z'')
     = lit ''2024-01-05-breaking-market-crashes''"
proof -
  let ?R = referenceBuiltins
  have iso: "0x20 \<notin> set (lit ''2024-01-05T10:00:00Z'')"
    by (simp add: lit_def)
  have empty: "toLowerCase ?R [] = []"
    by (simp add: referenceBuiltins_def latin1ToLowerCase_def)
  have l: "latin1ToLowerCase (lit ''Breaking: Market Crashes!'') = lit ''breaking: market crashes!''"
    by code_simp
  have lowered: "toLowerCase ?R (lit ''Breaking: Market Crashes!'') = lit ''breaking: market crashes!''"
    by (simp add: referenceBuiltins_def l)
  have parsed: "parseDate ?R (lit ''2024-01-05T10:00:00Z'') = Some 1704448800000"
    by (simp add: referenceBuiltins_def isoParse_example)
  have shown: "toISOString ?R 1704448800000 = lit ''2024-01-05T10:00:00.000Z''"
    by (simp add: referenceBuiltins_def isoFormat_example)
  note t = generateArticleSlug_date_and_title[of "lit ''2024-01-05T10:00:00Z''" ?R 1704448800000 0
      "lit ''Breaking: Market Crashes!''" 1704448800000]
  note t1 = t[THEN conjunct1, THEN mp, OF conjI[OF iso conjI[OF parsed empty]]]
  note t2 = t[THEN conjunct2, THEN conjunct1, THEN mp, OF conjI[OF lowered conjI[OF parsed shown]]]
  show ?thesis
    by (intro conjI; (rule iso | rule empty | rule lowered | rule parsed | rule shown | rule t1 | rule t2))
qed

end
